theory Spec2Isabelle
  imports Main "HOL-Library.Word" "HOL-Library.Multiset"
begin

section \<open>Platform types used by ZslProcessor.cpp\<close>

text \<open>
  \<^verbatim>\<open>nsecs_t\<close> is \<^verbatim>\<open>int64_t\<close>: a 64-bit word, read as two's complement with \<open>sint\<close>;
  subtraction and negation wrap around.
\<close>

type_synonym nsecs_t = "64 word"

text \<open>
  \<^verbatim>\<open>status_t\<close> is an \<^verbatim>\<open>int\<close>.  The header utils/Errors.h is not among the sources: the
  values below are the platform's (\<^verbatim>\<open>OK = 0\<close>, \<^verbatim>\<open>BAD_VALUE = -EINVAL\<close>,
  \<^verbatim>\<open>INVALID_OPERATION = -ENOSYS\<close>).  What is proved depends only on \<^verbatim>\<open>OK\<close> being 0
  and on the other codes being different from it.
\<close>

type_synonym status_t = int

definition OK :: status_t where
  "OK = 0"

definition BAD_VALUE :: status_t where
  "BAD_VALUE = - 22"

definition INVALID_OPERATION :: status_t where
  "INVALID_OPERATION = - 38"

definition NO_BUFFER_AVAILABLE :: status_t where
  "NO_BUFFER_AVAILABLE = 2"

definition NO_STREAM :: int where
  "NO_STREAM = - 1"

subsection \<open>CameraMetadata\<close>

text \<open>
  Modelled from the spec: the class CameraMetadata (its \<^verbatim>\<open>isEmpty\<close>, \<^verbatim>\<open>find\<close>,
  \<^verbatim>\<open>acquire\<close>, \<^verbatim>\<open>release\<close> and \<^verbatim>\<open>update\<close>) is not among the sources.  The spec's
  MetadataRecord is an ownable record with an extractable capture timestamp,
  which may be missing, and an empty state that never matches; acquiring a
  record transfers it and leaves the place it came from empty.  A metadata
  buffer is kept as the list of its entries, each a tag with its payload.
  Payload elements are held in 64-bit containers: the timestamp is an
  \<^verbatim>\<open>int64_t\<close>, the narrower payloads the code writes (\<^verbatim>\<open>uint8_t\<close> request type and
  stream ids, \<^verbatim>\<open>int32_t\<close> request id) are embedded with \<open>ucast\<close> and \<open>scast\<close>.
\<close>

datatype metadata_tag =
    ANDROID_SENSOR_TIMESTAMP
  | ANDROID_REQUEST_TYPE
  | ANDROID_REQUEST_INPUT_STREAMS
  | ANDROID_REQUEST_OUTPUT_STREAMS
  | ANDROID_REQUEST_ID
  | OTHER_TAG nat

type_synonym CameraMetadata = "(metadata_tag \<times> 64 word list) list"

record camera_metadata_entry_t =
  entry_count :: nat
  entry_data :: "64 word list"

text \<open>Modelled from the spec: \<^verbatim>\<open>isEmpty()\<close>, the buffer has no entry.\<close>

definition isEmpty :: "CameraMetadata \<Rightarrow> bool" where
  "isEmpty m = (m = [])"

text \<open>
  Modelled from the spec: \<^verbatim>\<open>find(tag)\<close>, the entry of the tag; an entry with
  \<^verbatim>\<open>count == 0\<close> when the tag is absent (the test findMatchesLocked makes before
  it reads the payload).
\<close>

definition find_entry :: "CameraMetadata \<Rightarrow> metadata_tag \<Rightarrow> camera_metadata_entry_t" where
  "find_entry m tag =
     (case map_of m tag of
        None \<Rightarrow> \<lparr>entry_count = 0, entry_data = []\<rparr>
      | Some d \<Rightarrow> \<lparr>entry_count = length d, entry_data = d\<rparr>)"

text \<open>
  \<^verbatim>\<open>entry.data.i64[0]\<close>: the first payload element.  An entry with no payload has
  no element 0: the read is out of range, which is \<open>None\<close> here.
\<close>

definition data_i64_0 :: "camera_metadata_entry_t \<Rightarrow> nsecs_t option" where
  "data_i64_0 entry = (case entry_data entry of [] \<Rightarrow> None | t # _ \<Rightarrow> Some t)"

text \<open>
  Modelled from the spec: \<^verbatim>\<open>acquire(other)\<close>, the ownership transfer.  The result is
  the content of the acquiring object (what it held before is dropped) and the
  content left in \<^verbatim>\<open>other\<close>, which is empty.
\<close>

definition acquire :: "CameraMetadata \<Rightarrow> CameraMetadata \<times> CameraMetadata" where
  "acquire other = (other, [])"

text \<open>
  Modelled from the spec: \<^verbatim>\<open>release()\<close> gives the content away; the object is left
  empty (the result here).
\<close>

definition release :: "CameraMetadata \<Rightarrow> CameraMetadata" where
  "release m = []"

text \<open>
  Modelled from the spec: \<^verbatim>\<open>update(tag, data, count)\<close> when it succeeds, the entry is
  replaced or appended.  Whether it succeeds is an input of pushToReprocess.
\<close>

fun update_entry :: "metadata_tag \<Rightarrow> 64 word list \<Rightarrow> CameraMetadata \<Rightarrow> CameraMetadata" where
  "update_entry tag d [] = [(tag, d)]"
| "update_entry tag d ((t, x) # m) =
     (if t = tag then (tag, d) # m else (t, x) # update_entry tag d m)"

subsection \<open>Buffers, pair slots and the processor's state\<close>

text \<open>
  A BufferItem carries the capture timestamp and the reference to its graphic
  buffer (\<open>None\<close> is the null reference of a default-constructed item).  A
  \<^verbatim>\<open>buffer_handle_t*\<close> points into the graphic buffer, so it is identified with it.
\<close>

record BufferItem =
  mTimestamp :: nsecs_t
  mGraphicBuffer :: "nat option"

type_synonym buffer_handle_ptr = "nat option"

definition BufferItem_default :: BufferItem where
  "BufferItem_default = \<lparr>mTimestamp = 0, mGraphicBuffer = None\<rparr>"

definition handle_of :: "BufferItem \<Rightarrow> buffer_handle_ptr" where
  "handle_of item = mGraphicBuffer item"

record ZslPair =
  buffer :: BufferItem
  frame :: CameraMetadata

definition ZslPair_default :: ZslPair where
  "ZslPair_default = \<lparr>buffer = BufferItem_default, frame = []\<rparr>"

datatype State = RUNNING | LOCKED

record ZslProcessor =
  mState :: State
  mZslReprocessStreamId :: int
  mFrameList :: "CameraMetadata list"
  mFrameListHead :: nat
  mZslQueue :: "ZslPair list"
  mZslQueueHead :: nat
  mZslQueueTail :: nat

text \<open>
  The constructor.  \<^verbatim>\<open>kZslBufferDepth\<close> and \<^verbatim>\<open>kFrameListDepth\<close> are constants of the
  header ZslProcessor.h, which is not among the sources: they are parameters.
\<close>

definition ZslProcessor_init :: "nat \<Rightarrow> nat \<Rightarrow> ZslProcessor" where
  "ZslProcessor_init kZslBufferDepth kFrameListDepth =
     \<lparr>mState = RUNNING,
      mZslReprocessStreamId = NO_STREAM,
      mFrameList = replicate kFrameListDepth [],
      mFrameListHead = 0,
      mZslQueue = replicate kZslBufferDepth ZslPair_default,
      mZslQueueHead = 0,
      mZslQueueTail = 0\<rparr>"

section \<open>findMatchesLocked\<close>

text \<open>
  \<^verbatim>\<open>abs\<close> on the 64-bit difference, stored in an \<^verbatim>\<open>int64_t\<close>: the absolute value in
  two's complement (the most negative value is its own negation).  The header
  that declares \<^verbatim>\<open>abs\<close> is the platform's; the 64-bit overload is assumed, as the
  spec's \<^verbatim>\<open>abs(bufferTimestamp - r.timestamp)\<close> has it.
\<close>

definition abs_i64 :: "nsecs_t \<Rightarrow> nsecs_t" where
  "abs_i64 x = (if sint x < 0 then - x else x)"

text \<open>
  One iteration of the inner loop: the value of \<^verbatim>\<open>match\<close> for the buffer timestamp
  and the frame at index j.  A frame without the timestamp entry is skipped
  (\<^verbatim>\<open>continue\<close>), which leaves no match.
\<close>

definition frameMatches :: "nsecs_t \<Rightarrow> CameraMetadata \<Rightarrow> bool" where
  "frameMatches bufferTimestamp frame_j =
     (if \<not> isEmpty frame_j then
        (let entry = find_entry frame_j ANDROID_SENSOR_TIMESTAMP in
         if entry_count entry = 0 then False
         else
           (case data_i64_0 entry of
              None \<Rightarrow> False
            | Some frameTimestamp \<Rightarrow>
                if bufferTimestamp = frameTimestamp then True
                else
                  (let delta = abs_i64 (bufferTimestamp - frameTimestamp) in
                   sint delta < 1000000)))
      else False)"

text \<open>
  The inner loop over mFrameList from index j: at the first match the queue entry
  acquires the frame (the list's slot is left empty) and the loop breaks.
\<close>

function scanFrameList ::
  "nat \<Rightarrow> nsecs_t \<Rightarrow> ZslPair \<Rightarrow> CameraMetadata list \<Rightarrow> ZslPair \<times> CameraMetadata list" where
  "scanFrameList j bufferTimestamp queueEntry frameList =
     (if j < length frameList then
        (if frameMatches bufferTimestamp (frameList ! j)
         then (case acquire (frameList ! j) of
                 (acquired, left) \<Rightarrow> (queueEntry\<lparr>frame := acquired\<rparr>, frameList[j := left]))
         else scanFrameList (j + 1) bufferTimestamp queueEntry frameList)
      else (queueEntry, frameList))"
  by pat_completeness auto
termination
  by (relation "measure (\<lambda>(j, _, _, frameList). length frameList - j)") auto

text \<open>
  The outer loop over mZslQueue from index i.  The block under \<^verbatim>\<open>IF_ALOGV()\<close> is
  compiled out (\<^verbatim>\<open>LOG_NDEBUG\<close> is not defined to 0 in this file).
\<close>

function scanZslQueue ::
  "nat \<Rightarrow> ZslPair list \<Rightarrow> CameraMetadata list \<Rightarrow> ZslPair list \<times> CameraMetadata list" where
  "scanZslQueue i queue frameList =
     (if i < length queue then
        (let queueEntry = queue ! i;
             bufferTimestamp = mTimestamp (buffer queueEntry)
         in if isEmpty (frame queueEntry) \<and> bufferTimestamp \<noteq> 0 then
              (case scanFrameList 0 bufferTimestamp queueEntry frameList of
                 (queueEntry', frameList') \<Rightarrow>
                   scanZslQueue (i + 1) (queue[i := queueEntry']) frameList')
            else scanZslQueue (i + 1) queue frameList)
      else (queue, frameList))"
  by pat_completeness auto
termination
  by (relation "measure (\<lambda>(i, queue, _). length queue - i)") auto

definition findMatchesLocked :: "ZslProcessor \<Rightarrow> ZslProcessor" where
  "findMatchesLocked s =
     (case scanZslQueue 0 (mZslQueue s) (mFrameList s) of
        (queue, frameList) \<Rightarrow> s\<lparr>mZslQueue := queue, mFrameList := frameList\<rparr>)"


section \<open>onFrameAvailable(frameId, frame)\<close>

text \<open>
  The metadata callback.  The timestamp is read from the entry that \<^verbatim>\<open>find\<close>
  returns before anything else is done, and without the test of \<^verbatim>\<open>entry.count\<close>
  that findMatchesLocked makes; the value feeds the verbose log only.  \<open>None\<close> is a
  read out of range (of the entry's payload, or of mFrameList) or a remainder
  by zero; the operation returns nothing otherwise, so the result is the state
  after it.  The caller's frame is left empty by \<^verbatim>\<open>acquire\<close>, which the state does
  not show.
\<close>

definition onFrameAvailable ::
  "nat \<Rightarrow> int \<Rightarrow> CameraMetadata \<Rightarrow> ZslProcessor \<Rightarrow> ZslProcessor option" where
  "onFrameAvailable kFrameListDepth frameId frame_in s =
     (let entry = find_entry frame_in ANDROID_SENSOR_TIMESTAMP in
      case data_i64_0 entry of
        None \<Rightarrow> None
      | Some timestamp \<Rightarrow>
          if mState s \<noteq> RUNNING then Some s
          else if mFrameListHead s < length (mFrameList s) \<and> 0 < kFrameListDepth then
            Some (findMatchesLocked
              (s\<lparr>mFrameList := (mFrameList s)[mFrameListHead s := fst (acquire frame_in)],
                 mFrameListHead := (mFrameListHead s + 1) mod kFrameListDepth\<rparr>))
          else None)"

section \<open>onBufferReleased\<close>

text \<open>
  The result is the state after the call and whether the mismatch was logged.
  \<open>None\<close> is a read of mZslQueue out of range.
\<close>

definition onBufferReleased ::
  "buffer_handle_ptr \<Rightarrow> ZslProcessor \<Rightarrow> (ZslProcessor \<times> bool) option" where
  "onBufferReleased handle s =
     (if mZslQueueTail s < length (mZslQueue s) then
        (let expectedHandle = handle_of (buffer (mZslQueue s ! mZslQueueTail s))
         in Some (s\<lparr>mState := RUNNING\<rparr>, handle \<noteq> expectedHandle))
      else None)"

section \<open>The buffer source\<close>

text \<open>
  Modelled from the spec: the class BufferItemConsumer is not among the sources.
  The spec's buffer source has \<^verbatim>\<open>tryAcquireBuffer() -> Result<BufferRecord,
  NoBufferAvailable | Error>\<close> and \<^verbatim>\<open>release(BufferRecord)\<close>.  The source holds
  what it will deliver next, a buffer or an error code, and the buffers that
  were handed back to it, in order.
\<close>

datatype acquire_outcome = Acquired BufferItem | Failed status_t

record BufferItemConsumer =
  incoming :: "acquire_outcome list"
  released :: "BufferItem list"

definition acquireBuffer ::
  "BufferItemConsumer \<Rightarrow> status_t \<times> BufferItem \<times> BufferItemConsumer" where
  "acquireBuffer consumer =
     (case incoming consumer of
        [] \<Rightarrow> (NO_BUFFER_AVAILABLE, BufferItem_default, consumer)
      | Acquired item # rest \<Rightarrow> (OK, item, consumer\<lparr>incoming := rest\<rparr>)
      | Failed res # rest \<Rightarrow> (res, BufferItem_default, consumer\<lparr>incoming := rest\<rparr>))"

definition releaseBuffer :: "BufferItem \<Rightarrow> BufferItemConsumer \<Rightarrow> BufferItemConsumer" where
  "releaseBuffer item consumer = consumer\<lparr>released := released consumer @ [item]\<rparr>"

section \<open>processNewZslBuffer\<close>

text \<open>
  The client is used for the error log only and is left out.  \<open>None\<close> is a read
  of mZslQueue out of range or a remainder by zero.
\<close>

definition processNewZslBuffer ::
  "nat \<Rightarrow> ZslProcessor \<times> BufferItemConsumer \<Rightarrow>
     (status_t \<times> ZslProcessor \<times> BufferItemConsumer) option" where
  "processNewZslBuffer kZslBufferDepth sc =
     (case sc of (s, consumer) \<Rightarrow>
      case acquireBuffer consumer of (res, item, consumer1) \<Rightarrow>
        if res \<noteq> OK then Some (res, s, consumer1)
        else if mState s = LOCKED then Some (OK, s, releaseBuffer item consumer1)
        else if kZslBufferDepth = 0 then None
        else
          (let full = ((mZslQueueHead s + 1) mod kZslBufferDepth = mZslQueueTail s)
           in if full \<and> \<not> mZslQueueTail s < length (mZslQueue s) then None
              else
                (let consumer2 =
                       (if full
                        then releaseBuffer (buffer (mZslQueue s ! mZslQueueTail s)) consumer1
                        else consumer1);
                     s1 =
                       (if full
                        then s\<lparr>mZslQueue := (mZslQueue s)[mZslQueueTail s := ZslPair_default],
                               mZslQueueTail := (mZslQueueTail s + 1) mod kZslBufferDepth\<rparr>
                        else s)
                 in if \<not> mZslQueueHead s1 < length (mZslQueue s1) then None
                    else
                      (let queueHead =
                             (mZslQueue s1 ! mZslQueueHead s1)
                               \<lparr>buffer := item,
                                frame := release (frame (mZslQueue s1 ! mZslQueueHead s1))\<rparr>;
                           s2 =
                             s1\<lparr>mZslQueue := (mZslQueue s1)[mZslQueueHead s1 := queueHead],
                                mZslQueueHead := (mZslQueueHead s1 + 1) mod kZslBufferDepth\<rparr>
                       in Some (OK, findMatchesLocked s2, consumer2)))))"

section \<open>pushToReprocess\<close>

text \<open>
  The client gives the capture stream id; the device's answers to
  \<^verbatim>\<open>pushReprocessBuffer\<close> and \<^verbatim>\<open>capture\<close>, the result of each \<^verbatim>\<open>request.update\<close> and
  the promotion of the weak client reference are inputs.  The calls made on the
  device are returned in order.
\<close>

record Camera2Client =
  captureStreamId :: int

datatype device_call =
    PushReprocessBuffer int buffer_handle_ptr
  | Capture CameraMetadata

record dispatch_env =
  client :: "Camera2Client option"
  res_update :: "metadata_tag \<Rightarrow> status_t"
  res_pushReprocessBuffer :: status_t
  res_capture :: status_t

text \<open>The value of the request-type enumerator, of the metadata tag header.\<close>

definition ANDROID_REQUEST_TYPE_REPROCESS :: "8 word" where
  "ANDROID_REQUEST_TYPE_REPROCESS = 1"

text \<open>An \<^verbatim>\<open>int\<close> stream id stored in a \<^verbatim>\<open>uint8_t\<close> array.\<close>

definition stream_u8 :: "int \<Rightarrow> 64 word" where
  "stream_u8 streamId = ucast (word_of_int streamId :: 8 word)"

text \<open>
  The loop that looks for a request: it copies the frame of the slot at index and
  advances index, until the copy is not empty or index reaches the head.  It
  returns the request and the index it stopped at.  \<open>None\<close> is a read out of
  range, a remainder by zero, or a loop that does not end.
\<close>

partial_function (option) scanForRequest ::
  "nat \<Rightarrow> ZslPair list \<Rightarrow> nat \<Rightarrow> CameraMetadata \<Rightarrow> nat \<Rightarrow> (CameraMetadata \<times> nat) option" where
  "scanForRequest kZslBufferDepth queue head request index =
     (if isEmpty request \<and> index \<noteq> head then
        (if index < length queue \<and> 0 < kZslBufferDepth
         then scanForRequest kZslBufferDepth queue head (frame (queue ! index))
                ((index + 1) mod kZslBufferDepth)
         else None)
      else Some (request, index))"

definition pushToReprocess ::
  "nat \<Rightarrow> dispatch_env \<Rightarrow> 32 word \<Rightarrow> ZslProcessor \<Rightarrow>
     (status_t \<times> ZslProcessor \<times> device_call list) option" where
  "pushToReprocess kZslBufferDepth env requestId s =
     (case client env of
        None \<Rightarrow> Some (of_bool False, s, [])
      | Some cl \<Rightarrow>
          if mZslQueueTail s \<noteq> mZslQueueHead s then
            (case scanForRequest kZslBufferDepth (mZslQueue s) (mZslQueueHead s) []
                    (mZslQueueTail s) of
               None \<Rightarrow> None
             | Some (request, index) \<Rightarrow>
                 if isEmpty request then Some (BAD_VALUE, s, [])
                 else if \<not> index < length (mZslQueue s) then None
                 else
                   (let handle = handle_of (buffer (mZslQueue s ! index));
                        res1 = res_update env ANDROID_REQUEST_TYPE;
                        request1 =
                          (if res1 = OK
                           then update_entry ANDROID_REQUEST_TYPE
                                  [ucast ANDROID_REQUEST_TYPE_REPROCESS] request
                           else request);
                        request2 =
                          (if res1 = OK \<and> res_update env ANDROID_REQUEST_INPUT_STREAMS = OK
                           then update_entry ANDROID_REQUEST_INPUT_STREAMS
                                  [stream_u8 (mZslReprocessStreamId s)] request1
                           else request1);
                        request3 =
                          (if res1 = OK \<and> res_update env ANDROID_REQUEST_OUTPUT_STREAMS = OK
                           then update_entry ANDROID_REQUEST_OUTPUT_STREAMS
                                  [stream_u8 (captureStreamId cl)] request2
                           else request2);
                        res = res_update env ANDROID_REQUEST_ID;
                        request4 =
                          (if res = OK
                           then update_entry ANDROID_REQUEST_ID [scast requestId] request3
                           else request3);
                        push = PushReprocessBuffer (mZslReprocessStreamId s) handle
                    in if res \<noteq> OK then Some (INVALID_OPERATION, s, [])
                       else if res_pushReprocessBuffer env \<noteq> OK
                         then Some (res_pushReprocessBuffer env, s, [push])
                       else if res_capture env \<noteq> OK
                         then Some (res_capture env, s, [push, Capture request4])
                       else Some (OK, s\<lparr>mState := LOCKED\<rparr>, [push, Capture request4])))
          else Some (BAD_VALUE, s, []))"

section \<open>threadLoop: the drain loop\<close>

text \<open>
  The do-while of threadLoop, after the wait: the client is promoted and one
  buffer is processed, as long as the result is \<^verbatim>\<open>OK\<close>.  The result is what
  threadLoop returns, with the state and the buffer source after it.
\<close>

function drainLoop ::
  "nat \<Rightarrow> Camera2Client option \<Rightarrow> ZslProcessor \<Rightarrow> BufferItemConsumer \<Rightarrow>
     (bool \<times> ZslProcessor \<times> BufferItemConsumer) option" where
  "drainLoop kZslBufferDepth cl s consumer =
     (if cl = None then Some (False, s, consumer)
      else
        (case processNewZslBuffer kZslBufferDepth (s, consumer) of
           None \<Rightarrow> None
         | Some (res, s', consumer') \<Rightarrow>
             if res = OK then drainLoop kZslBufferDepth cl s' consumer'
             else Some (True, s', consumer')))"
  by pat_completeness auto
termination
proof (relation "measure (\<lambda>(_, _, _, consumer). length (incoming consumer))")
  show "wf (measure (\<lambda>(_, _, _, consumer). length (incoming consumer)))"
    by simp
next
  fix kZslBufferDepth :: nat and cl :: "Camera2Client option" and s :: ZslProcessor
    and consumer :: BufferItemConsumer and x2 x y s' consumer'
  assume "processNewZslBuffer kZslBufferDepth (s, consumer) = Some x2"
    and "(x, y) = x2" and "(s', consumer') = y" and "x = OK"
  then have "processNewZslBuffer kZslBufferDepth (s, consumer) = Some (OK, s', consumer')"
    by simp
  then have "length (incoming consumer') < length (incoming consumer)"
    by (auto simp: processNewZslBuffer_def acquireBuffer_def releaseBuffer_def Let_def
          NO_BUFFER_AVAILABLE_def OK_def
        split: list.splits acquire_outcome.splits if_splits)
  then show "((kZslBufferDepth, cl, s', consumer'), (kZslBufferDepth, cl, s, consumer))
      \<in> measure (\<lambda>(_, _, _, consumer). length (incoming consumer))"
    by simp
qed

declare acquire_def [simp]
declare release_def [simp]
declare scanFrameList.simps [simp del]
declare scanZslQueue.simps [simp del]
declare drainLoop.simps [simp del]
declare scanForRequest.simps [code]

section \<open>Example inputs\<close>

text \<open>
  Concrete records and states on which the theorems below are instantiated.
  Timestamps are nanoseconds; the examples are 100 ms apart.
\<close>

definition example_meta :: "nsecs_t \<Rightarrow> CameraMetadata" where
  "example_meta t = [(ANDROID_SENSOR_TIMESTAMP, [t]), (OTHER_TAG 0, [1])]"

definition example_buffer :: "nsecs_t \<Rightarrow> nat \<Rightarrow> BufferItem" where
  "example_buffer t g = \<lparr>mTimestamp = t, mGraphicBuffer = Some g\<rparr>"

definition example_client :: Camera2Client where
  "example_client = \<lparr>captureStreamId = 2\<rparr>"

definition example_env :: dispatch_env where
  "example_env =
     \<lparr>client = Some example_client, res_update = (\<lambda>_. OK),
      res_pushReprocessBuffer = OK, res_capture = OK\<rparr>"

text \<open>One buffer waits for its metadata; depths 3 and 6.\<close>

definition example_waiting :: ZslProcessor where
  "example_waiting =
     \<lparr>mState = RUNNING, mZslReprocessStreamId = 1,
      mFrameList = [[], [], [], [], [], []], mFrameListHead = 0,
      mZslQueue =
        [\<lparr>buffer = example_buffer 500000000 1, frame = []\<rparr>, ZslPair_default, ZslPair_default],
      mZslQueueHead = 1, mZslQueueTail = 0\<rparr>"

text \<open>Slots 0 and 2 are complete pairs, slot 1 holds a buffer only; depths 4 and 8.\<close>

definition example_three :: ZslProcessor where
  "example_three =
     \<lparr>mState = RUNNING, mZslReprocessStreamId = 1,
      mFrameList = [[], [], [], [], [], [], [], []], mFrameListHead = 2,
      mZslQueue =
        [\<lparr>buffer = example_buffer 100000000 1, frame = example_meta 100000000\<rparr>,
         \<lparr>buffer = example_buffer 200000000 2, frame = []\<rparr>,
         \<lparr>buffer = example_buffer 300000000 3, frame = example_meta 300000000\<rparr>,
         ZslPair_default],
      mZslQueueHead = 3, mZslQueueTail = 0\<rparr>"

text \<open>One waiting buffer and one record, with the given timestamps; depths 3 and 6.\<close>

definition example_near :: "nsecs_t \<Rightarrow> nsecs_t \<Rightarrow> ZslProcessor" where
  "example_near t_b t_m =
     \<lparr>mState = RUNNING, mZslReprocessStreamId = 1,
      mFrameList = [[], example_meta t_m, [], [], [], []], mFrameListHead = 2,
      mZslQueue = [\<lparr>buffer = example_buffer t_b 1, frame = []\<rparr>, ZslPair_default, ZslPair_default],
      mZslQueueHead = 1, mZslQueueTail = 0\<rparr>"

text \<open>Two waiting buffers of the same timestamp and one record of that timestamp.\<close>

definition example_twins :: ZslProcessor where
  "example_twins =
     \<lparr>mState = RUNNING, mZslReprocessStreamId = 1,
      mFrameList = [example_meta 500000000, [], [], [], [], []], mFrameListHead = 1,
      mZslQueue =
        [\<lparr>buffer = example_buffer 500000000 1, frame = []\<rparr>,
         \<lparr>buffer = example_buffer 500000000 2, frame = []\<rparr>,
         ZslPair_default],
      mZslQueueHead = 2, mZslQueueTail = 0\<rparr>"

section \<open>The matching loops\<close>

lemma frameMatches_empty: "\<not> frameMatches ts []"
  by (simp add: frameMatches_def isEmpty_def)

lemma scanFrameList_cases:
  assumes "scanFrameList j ts e fl = (e', fl')"
  shows "(e' = e \<and> fl' = fl \<and> (\<forall>k. j \<le> k \<and> k < length fl \<longrightarrow> \<not> frameMatches ts (fl ! k)))
       \<or> (\<exists>k. j \<le> k \<and> k < length fl \<and> frameMatches ts (fl ! k)
              \<and> (\<forall>k'. j \<le> k' \<and> k' < k \<longrightarrow> \<not> frameMatches ts (fl ! k'))
              \<and> e' = e\<lparr>frame := fl ! k\<rparr> \<and> fl' = fl[k := []])"
  using assms
proof (induction j ts e fl rule: scanFrameList.induct)
  case (1 j ts e fl)
  show ?case
  proof (cases "j < length fl")
    case False
    with "1.prems" show ?thesis by (subst (asm) scanFrameList.simps) auto
  next
    case inrange: True
    show ?thesis
    proof (cases "frameMatches ts (fl ! j)")
      case True
      with inrange "1.prems" have "e' = e\<lparr>frame := fl ! j\<rparr> \<and> fl' = fl[j := []]"
        by (subst (asm) scanFrameList.simps) auto
      with True inrange show ?thesis by auto
    next
      case False
      with inrange "1.prems" have "scanFrameList (j + 1) ts e fl = (e', fl')"
        by (subst (asm) scanFrameList.simps) simp
      from "1.IH" [OF inrange False this]
      show ?thesis
      proof (elim disjE exE conjE)
        assume a: "e' = e" "fl' = fl"
          "\<forall>k. j + 1 \<le> k \<and> k < length fl \<longrightarrow> \<not> frameMatches ts (fl ! k)"
        have "\<not> frameMatches ts (fl ! k)" if "j \<le> k" "k < length fl" for k
          using that a(3) False by (cases "k = j") auto
        with a show ?thesis by blast
      next
        fix k
        assume a: "j + 1 \<le> k" "k < length fl" "frameMatches ts (fl ! k)"
          "\<forall>k'. j + 1 \<le> k' \<and> k' < k \<longrightarrow> \<not> frameMatches ts (fl ! k')"
          "e' = e\<lparr>frame := fl ! k\<rparr>" "fl' = fl[k := []]"
        have "\<not> frameMatches ts (fl ! k')" if "j \<le> k'" "k' < k" for k'
          using that a(4) False by (cases "k' = j") auto
        with a show ?thesis
          by (intro disjI2 exI [of _ k]) auto
      qed
    qed
  qed
qed

lemma scanFrameList_buffer [simp]: "buffer (fst (scanFrameList j ts e fl)) = buffer e"
  using scanFrameList_cases [of j ts e fl "fst (scanFrameList j ts e fl)" "snd (scanFrameList j ts e fl)"]
  by auto

lemma scanFrameList_length [simp]: "length (snd (scanFrameList j ts e fl)) = length fl"
  using scanFrameList_cases [of j ts e fl "fst (scanFrameList j ts e fl)" "snd (scanFrameList j ts e fl)"]
  by auto

lemma scanZslQueue_invariant:
  assumes init: "Inv i q fl"
    and match: "\<And>i q fl k. i < length q \<Longrightarrow> Inv i q fl \<Longrightarrow> frame (q ! i) = [] \<Longrightarrow>
        mTimestamp (buffer (q ! i)) \<noteq> 0 \<Longrightarrow> k < length fl \<Longrightarrow>
        frameMatches (mTimestamp (buffer (q ! i))) (fl ! k) \<Longrightarrow>
        (\<forall>k'<k. \<not> frameMatches (mTimestamp (buffer (q ! i))) (fl ! k')) \<Longrightarrow>
        Inv (i + 1) (q[i := (q ! i)\<lparr>frame := fl ! k\<rparr>]) (fl[k := []])"
    and skip: "\<And>i q fl. i < length q \<Longrightarrow> Inv i q fl \<Longrightarrow>
        (frame (q ! i) \<noteq> [] \<or> mTimestamp (buffer (q ! i)) = 0 \<or>
         (\<forall>k<length fl. \<not> frameMatches (mTimestamp (buffer (q ! i))) (fl ! k))) \<Longrightarrow>
        Inv (i + 1) q fl"
  shows "\<exists>n. i \<le> n \<and> length (fst (scanZslQueue i q fl)) \<le> n \<and>
           Inv n (fst (scanZslQueue i q fl)) (snd (scanZslQueue i q fl))"
  using init
proof (induction i q fl rule: scanZslQueue.induct)
  case (1 i q fl)
  show ?case
  proof (cases "i < length q")
    case False
    then have "scanZslQueue i q fl = (q, fl)"
      by (subst scanZslQueue.simps) simp
    with False "1.prems" show ?thesis
      by (intro exI [of _ i]) simp
  next
    case inrange: True
    let ?ts = "mTimestamp (buffer (q ! i))"
    show ?thesis
    proof (cases "isEmpty (frame (q ! i)) \<and> ?ts \<noteq> 0")
      case False
      then have eq: "scanZslQueue i q fl = scanZslQueue (i + 1) q fl"
        using inrange by (subst scanZslQueue.simps) (auto simp: Let_def)
      have "Inv (i + 1) q fl"
        using skip [OF inrange "1.prems"] False by (auto simp: isEmpty_def)
      from "1.IH"(2) [OF inrange refl refl False this] show ?thesis
        unfolding eq by (auto intro: Suc_leD)
    next
      case True
      obtain e1 fl1 where sc: "scanFrameList 0 ?ts (q ! i) fl = (e1, fl1)"
        by (cases "scanFrameList 0 ?ts (q ! i) fl") auto
      have eq: "scanZslQueue i q fl = scanZslQueue (i + 1) (q[i := e1]) fl1"
        using inrange True sc by (subst scanZslQueue.simps) (simp add: Let_def)
      have "Inv (i + 1) (q[i := e1]) fl1"
        using scanFrameList_cases [OF sc]
      proof (elim disjE exE conjE)
        assume a: "e1 = q ! i" "fl1 = fl"
          "\<forall>k. 0 \<le> k \<and> k < length fl \<longrightarrow> \<not> frameMatches ?ts (fl ! k)"
        then show ?thesis
          using skip [OF inrange "1.prems"] by simp
      next
        fix k
        assume a: "k < length fl" "frameMatches ?ts (fl ! k)"
          "\<forall>k'. 0 \<le> k' \<and> k' < k \<longrightarrow> \<not> frameMatches ?ts (fl ! k')"
          "e1 = (q ! i)\<lparr>frame := fl ! k\<rparr>" "fl1 = fl[k := []]"
        show ?thesis
          using match [OF inrange "1.prems" _ _ a(1) a(2)] True a(3)
          unfolding a(4,5) by (simp add: isEmpty_def)
      qed
      from "1.IH"(1) [OF inrange refl refl True sc [symmetric] this] show ?thesis
        unfolding eq by (auto intro: Suc_leD)
    qed
  qed
qed

lemma frameMatches_nonempty: "frameMatches ts m \<Longrightarrow> m \<noteq> []"
  using frameMatches_empty by auto

lemma map_buffer_nth:
  "map buffer qa = map buffer q \<Longrightarrow> i < length q \<Longrightarrow> buffer (q ! i) = buffer (qa ! i)"
  by (metis length_map nth_map)

lemma mset_swap:
  assumes "a \<in># M" "b \<in># N"
  shows "add_mset b (M - {#a#}) + add_mset a (N - {#b#}) = M + N"
proof -
  have "add_mset b (M - {#a#}) + add_mset a (N - {#b#}) =
      add_mset a (M - {#a#}) + add_mset b (N - {#b#})"
    by simp
  also have "\<dots> = M + N"
    using assms by (simp only: insert_DiffM)
  finally show ?thesis .
qed

lemma scanZslQueue_preserves:
  "length (fst (scanZslQueue i q fl)) = length q \<and>
   length (snd (scanZslQueue i q fl)) = length fl \<and>
   map buffer (fst (scanZslQueue i q fl)) = map buffer q"
proof -
  have "\<exists>n. i \<le> n \<and> length (fst (scanZslQueue i q fl)) \<le> n \<and>
      (length (fst (scanZslQueue i q fl)) = length q \<and>
       length (snd (scanZslQueue i q fl)) = length fl \<and>
       map buffer (fst (scanZslQueue i q fl)) = map buffer q)"
    by (rule scanZslQueue_invariant
          [where Inv = "\<lambda>n q1 fl1. length q1 = length q \<and> length fl1 = length fl \<and>
             map buffer q1 = map buffer q"])
       (auto simp: map_update list_update_same_conv dest: map_buffer_nth)
  then show ?thesis by blast
qed

lemma scanZslQueue_no_frames:
  assumes "\<forall>k<length fl. fl ! k = []"
  shows "scanZslQueue i q fl = (q, fl)"
proof -
  have "\<exists>n. i \<le> n \<and> length (fst (scanZslQueue i q fl)) \<le> n \<and>
      (fst (scanZslQueue i q fl) = q \<and> snd (scanZslQueue i q fl) = fl)"
    by (rule scanZslQueue_invariant [where Inv = "\<lambda>n q1 fl1. q1 = q \<and> fl1 = fl"])
       (use assms frameMatches_empty in auto)
  then show ?thesis by (auto simp: prod_eq_iff)
qed

lemma scanZslQueue_conserves:
  "mset (map frame (fst (scanZslQueue i q fl))) + mset (snd (scanZslQueue i q fl)) =
   mset (map frame q) + mset fl"
proof -
  have step: "mset (map frame (q1[n := (q1 ! n)\<lparr>frame := fl1 ! k\<rparr>])) + mset (fl1[k := []]) =
      mset (map frame q1) + mset fl1"
    if "n < length q1" "frame (q1 ! n) = []" "k < length fl1"
    for n k and q1 :: "ZslPair list" and fl1 :: "CameraMetadata list"
  proof -
    have a: "[] \<in># mset (map frame q1)"
      using that(1,2) by (metis length_map nth_map nth_mem set_mset_mset)
    have b: "fl1 ! k \<in># mset fl1"
      using that(3) by simp
    have "mset (map frame (q1[n := (q1 ! n)\<lparr>frame := fl1 ! k\<rparr>])) =
        add_mset (fl1 ! k) (mset (map frame q1) - {#[]#})"
      using that(1,2) by (simp add: map_update mset_update)
    moreover have "mset (fl1[k := []]) = add_mset [] (mset fl1 - {#fl1 ! k#})"
      using that(3) by (simp add: mset_update)
    ultimately show ?thesis
      using mset_swap [OF a b] by simp
  qed
  have "\<exists>n. i \<le> n \<and> length (fst (scanZslQueue i q fl)) \<le> n \<and>
      (mset (map frame (fst (scanZslQueue i q fl))) + mset (snd (scanZslQueue i q fl)) =
       mset (map frame q) + mset fl)"
    by (rule scanZslQueue_invariant
          [where Inv = "\<lambda>n q1 fl1. mset (map frame q1) + mset fl1 = mset (map frame q) + mset fl"])
       (use step in auto)
  then show ?thesis by blast
qed

lemma scanZslQueue_history_slot:
  assumes "j < length fl"
  shows "snd (scanZslQueue 0 q fl) ! j = fl ! j \<or>
         (snd (scanZslQueue 0 q fl) ! j = [] \<and>
          (\<exists>k<length q. frame (fst (scanZslQueue 0 q fl) ! k) = fl ! j \<and> frame (q ! k) = []))"
proof -
  let ?Inv = "\<lambda>n q1 fl1. length q1 = length q \<and> length fl1 = length fl \<and>
      (\<forall>k<length q. n \<le> k \<longrightarrow> q1 ! k = q ! k) \<and>
      (\<forall>j<length fl. fl1 ! j = fl ! j \<or>
         (fl1 ! j = [] \<and> (\<exists>k<length q. k < n \<and> frame (q1 ! k) = fl ! j \<and> frame (q ! k) = [])))"
  have "\<exists>n. 0 \<le> n \<and> length (fst (scanZslQueue 0 q fl)) \<le> n \<and>
      ?Inv n (fst (scanZslQueue 0 q fl)) (snd (scanZslQueue 0 q fl))"
  proof (rule scanZslQueue_invariant [where Inv = ?Inv])
    show "?Inv 0 q fl" by simp
  next
    fix i q1 fl1 k
    assume i: "i < length q1" and inv: "?Inv i q1 fl1" and empty: "frame (q1 ! i) = []"
      and k: "k < length fl1" and m: "frameMatches (mTimestamp (buffer (q1 ! i))) (fl1 ! k)"
    from m have ne: "fl1 ! k \<noteq> []" by (rule frameMatches_nonempty)
    from inv i have qi: "q1 ! i = q ! i" by simp
    from inv k ne have flk: "fl1 ! k = fl ! k" by auto
    show "?Inv (i + 1) (q1[i := (q1 ! i)\<lparr>frame := fl1 ! k\<rparr>]) (fl1[k := []])"
    proof (intro conjI allI impI)
      fix j' assume j': "j' < length fl"
      show "fl1[k := []] ! j' = fl ! j' \<or>
         (fl1[k := []] ! j' = [] \<and>
          (\<exists>ka<length q. ka < i + 1 \<and>
             frame (q1[i := (q1 ! i)\<lparr>frame := fl1 ! k\<rparr>] ! ka) = fl ! j' \<and> frame (q ! ka) = []))"
      proof (cases "j' = k")
        case True
        have "i < length q \<and> i < i + 1 \<and>
            frame (q1[i := (q1 ! i)\<lparr>frame := fl1 ! k\<rparr>] ! i) = fl ! j' \<and> frame (q ! i) = []"
          using i inv True flk empty qi by simp
        then show ?thesis using True k by auto
      next
        case False
        from inv j' have "fl1 ! j' = fl ! j' \<or>
          (fl1 ! j' = [] \<and> (\<exists>ka<length q. ka < i \<and> frame (q1 ! ka) = fl ! j' \<and> frame (q ! ka) = []))"
          by blast
        then show ?thesis
        proof
          assume "fl1 ! j' = fl ! j'"
          then show ?thesis using False by simp
        next
          assume "fl1 ! j' = [] \<and> (\<exists>ka<length q. ka < i \<and> frame (q1 ! ka) = fl ! j' \<and> frame (q ! ka) = [])"
          then obtain ka where "fl1 ! j' = []" "ka < length q" "ka < i" "frame (q1 ! ka) = fl ! j'"
            "frame (q ! ka) = []" by blast
          then have "fl1[k := []] ! j' = [] \<and> ka < length q \<and> ka < i + 1 \<and>
             frame (q1[i := (q1 ! i)\<lparr>frame := fl1 ! k\<rparr>] ! ka) = fl ! j' \<and> frame (q ! ka) = []"
            using False by simp
          then show ?thesis by blast
        qed
      qed
    qed (use inv in auto)
  next
    fix i q1 fl1
    assume "i < length q1" and inv: "?Inv i q1 fl1"
    show "?Inv (i + 1) q1 fl1"
    proof (intro conjI allI impI)
      fix j' assume j': "j' < length fl"
      from inv j' have "fl1 ! j' = fl ! j' \<or>
          (fl1 ! j' = [] \<and> (\<exists>ka<length q. ka < i \<and> frame (q1 ! ka) = fl ! j' \<and> frame (q ! ka) = []))"
        by blast
      then show "fl1 ! j' = fl ! j' \<or>
          (fl1 ! j' = [] \<and> (\<exists>ka<length q. ka < i + 1 \<and> frame (q1 ! ka) = fl ! j' \<and> frame (q ! ka) = []))"
        using less_SucI by fastforce
    qed (use inv in auto)
  qed
  with assms show ?thesis by blast
qed

subsection \<open>The tolerance test\<close>

lemma sint_diff_no_overflow:
  fixes a b :: "64 word"
  assumes "\<bar>sint a - sint b\<bar> < 2 ^ 63"
  shows "sint (a - b) = sint a - sint b"
proof -
  have "sint (a - b) = signed_take_bit (LENGTH(64) - 1) (sint a - sint b)"
    by (rule sint_word_ariths)
  also have "\<dots> = sint a - sint b"
    using assms by (intro signed_take_bit_int_eq_self) simp_all
  finally show ?thesis .
qed

lemma sint_abs_i64:
  fixes x :: "64 word"
  assumes "\<bar>sint x\<bar> < 2 ^ 63"
  shows "sint (abs_i64 x) = \<bar>sint x\<bar>"
proof (cases "sint x < 0")
  case False
  then show ?thesis by (simp add: abs_i64_def)
next
  case True
  have "sint (- x) = signed_take_bit (LENGTH(64) - 1) (- sint x)"
    by (rule sint_word_ariths)
  also have "\<dots> = - sint x"
    using assms by (intro signed_take_bit_int_eq_self) simp_all
  finally show ?thesis using True by (simp add: abs_i64_def)
qed

lemma frameMatches_iff:
  assumes "map_of m ANDROID_SENSOR_TIMESTAMP = Some (t_m # rest)"
    and "\<bar>sint t_b - sint t_m\<bar> < 2 ^ 63"
  shows "frameMatches t_b m \<longleftrightarrow> (t_b = t_m \<or> \<bar>sint t_b - sint t_m\<bar> < 1000000)"
proof -
  have ne: "m \<noteq> []" using assms(1) by auto
  have d: "sint (t_b - t_m) = sint t_b - sint t_m"
    using assms(2) by (rule sint_diff_no_overflow)
  have "sint (abs_i64 (t_b - t_m)) = \<bar>sint t_b - sint t_m\<bar>"
    using sint_abs_i64 [of "t_b - t_m"] assms(2) d by simp
  then show ?thesis
    using ne assms(1)
    by (simp add: frameMatches_def isEmpty_def find_entry_def data_i64_0_def Let_def)
qed

subsection \<open>One waiting buffer and one record\<close>

lemma scanZslQueue_single:
  assumes i: "i < length q" and slot: "frame (q ! i) = []"
    and tb: "mTimestamp (buffer (q ! i)) = t_b" "t_b \<noteq> 0"
    and others: "\<forall>k<length q. k \<noteq> i \<longrightarrow> frame (q ! k) \<noteq> [] \<or> mTimestamp (buffer (q ! k)) = 0"
    and j: "j < length fl" "fl ! j = m"
    and empties: "\<forall>k<length fl. k \<noteq> j \<longrightarrow> fl ! k = []"
  shows "scanZslQueue 0 q fl =
     (if frameMatches t_b m then (q[i := (q ! i)\<lparr>frame := m\<rparr>], fl[j := []]) else (q, fl))"
proof -
  let ?r = "if frameMatches t_b m then (q[i := (q ! i)\<lparr>frame := m\<rparr>], fl[j := []]) else (q, fl)"
  let ?Inv = "\<lambda>n q1 fl1. if n \<le> i then q1 = q \<and> fl1 = fl else (q1, fl1) = ?r"
  have seek_r: "frame (fst ?r ! n) \<noteq> [] \<or> mTimestamp (buffer (fst ?r ! n)) = 0 \<or>
      (\<forall>k<length (snd ?r). \<not> frameMatches ts (snd ?r ! k))" if "n < length q" "i < n" for n ts
  proof (cases "frameMatches t_b m")
    case True
    have "snd ?r ! k = []" if "k < length fl" for k
      using True that empties by (cases "k = j") auto
    then show ?thesis using True frameMatches_empty by auto
  next
    case False
    then show ?thesis using others that by auto
  qed
  have "\<exists>n. 0 \<le> n \<and> length (fst (scanZslQueue 0 q fl)) \<le> n \<and>
      ?Inv n (fst (scanZslQueue 0 q fl)) (snd (scanZslQueue 0 q fl))"
  proof (rule scanZslQueue_invariant [where Inv = ?Inv])
    show "?Inv 0 q fl" by simp
  next
    fix n q1 fl1 k
    assume n: "n < length q1" and inv: "?Inv n q1 fl1" and e: "frame (q1 ! n) = []"
      and t: "mTimestamp (buffer (q1 ! n)) \<noteq> 0" and k: "k < length fl1"
      and mt: "frameMatches (mTimestamp (buffer (q1 ! n))) (fl1 ! k)"
    consider (lt) "n < i" | (eq) "n = i" | (gt) "i < n" by linarith
    then show "?Inv (n + 1) (q1[n := (q1 ! n)\<lparr>frame := fl1 ! k\<rparr>]) (fl1[k := []])"
    proof cases
      case lt
      with inv have "q1 = q" by simp
      with others lt i e t show ?thesis by auto
    next
      case eq
      with inv have q1: "q1 = q" "fl1 = fl" by simp_all
      have "fl ! k \<noteq> []" using mt q1 frameMatches_nonempty by auto
      with empties k q1 have kj: "k = j" by auto
      with mt q1 eq tb j have "frameMatches t_b m" by simp
      with q1 eq kj j show ?thesis by simp
    next
      case gt
      with inv have r: "(q1, fl1) = ?r" by simp
      then have "length q1 = length q" by (auto split: if_splits)
      with seek_r [of n "mTimestamp (buffer (q1 ! n))"] gt n r e t k mt
      show ?thesis by (auto simp: prod_eq_iff split: if_splits)
    qed
  next
    fix n q1 fl1
    assume n: "n < length q1" and inv: "?Inv n q1 fl1"
      and sk: "frame (q1 ! n) \<noteq> [] \<or> mTimestamp (buffer (q1 ! n)) = 0 \<or>
         (\<forall>k<length fl1. \<not> frameMatches (mTimestamp (buffer (q1 ! n))) (fl1 ! k))"
    consider (lt) "n < i" | (eq) "n = i" | (gt) "i < n" by linarith
    then show "?Inv (n + 1) q1 fl1"
    proof cases
      case lt
      with inv show ?thesis by simp
    next
      case eq
      with inv have q1: "q1 = q" "fl1 = fl" by simp_all
      with sk eq slot tb j have "\<not> frameMatches t_b m" by auto
      with q1 eq show ?thesis by simp
    next
      case gt
      with inv show ?thesis by simp
    qed
  qed
  then obtain n where n: "length (fst (scanZslQueue 0 q fl)) \<le> n"
    "?Inv n (fst (scanZslQueue 0 q fl)) (snd (scanZslQueue 0 q fl))" by blast
  have "length (fst (scanZslQueue 0 q fl)) = length q"
    by (simp add: scanZslQueue_preserves)
  with n(1) i have "\<not> n \<le> i" by simp
  with n(2) show ?thesis by (simp add: prod_eq_iff)
qed

subsection \<open>Which pairs a pass forms, in any state\<close>

lemma scanZslQueue_pairs:
  fixes q :: "ZslPair list" and fl :: "CameraMetadata list"
  shows "(\<forall>i<length q. frame (fst (scanZslQueue 0 q fl) ! i) \<noteq> frame (q ! i) \<longrightarrow>
            frame (q ! i) = [] \<and> mTimestamp (buffer (q ! i)) \<noteq> 0 \<and>
            (\<exists>j<length fl. frame (fst (scanZslQueue 0 q fl) ! i) = fl ! j \<and>
               snd (scanZslQueue 0 q fl) ! j = [] \<and>
               frameMatches (mTimestamp (buffer (q ! i))) (fl ! j)))
       \<and> (\<forall>i<length q. frame (fst (scanZslQueue 0 q fl) ! i) = [] \<and>
            mTimestamp (buffer (q ! i)) \<noteq> 0 \<longrightarrow>
            (\<forall>j<length fl. \<not> frameMatches (mTimestamp (buffer (q ! i)))
                                (snd (scanZslQueue 0 q fl) ! j)))"
proof -
  define ts where "ts = (\<lambda>k. mTimestamp (buffer (q ! k)))"
  define A where "A = (\<lambda>(q1 :: ZslPair list) (fl1 :: CameraMetadata list) k.
      frame (q1 ! k) \<noteq> frame (q ! k) \<longrightarrow>
        frame (q ! k) = [] \<and> ts k \<noteq> 0 \<and>
        (\<exists>j<length fl. frame (q1 ! k) = fl ! j \<and> fl1 ! j = [] \<and> frameMatches (ts k) (fl ! j)))"
  define B where "B = (\<lambda>(q1 :: ZslPair list) (fl1 :: CameraMetadata list) k.
      frame (q1 ! k) = [] \<and> ts k \<noteq> 0 \<longrightarrow> (\<forall>j<length fl. \<not> frameMatches (ts k) (fl1 ! j)))"
  define Inv where "Inv = (\<lambda>n q1 fl1.
      length q1 = length q \<and> length fl1 = length fl \<and>
      (\<forall>k<length q. n \<le> k \<longrightarrow> q1 ! k = q ! k) \<and>
      (\<forall>j<length fl. fl1 ! j = fl ! j \<or> fl1 ! j = []) \<and>
      (\<forall>k<length q. A q1 fl1 k) \<and>
      (\<forall>k<length q. k < n \<longrightarrow> B q1 fl1 k))"
  have init: "Inv 0 q fl"
    by (simp add: Inv_def A_def)
  have match: "Inv (n + 1) (q1[n := (q1 ! n)\<lparr>frame := fl1 ! k0\<rparr>]) (fl1[k0 := []])"
    if n: "n < length q1" and inv: "Inv n q1 fl1" and e: "frame (q1 ! n) = []"
      and t: "mTimestamp (buffer (q1 ! n)) \<noteq> 0" and k0: "k0 < length fl1"
      and m: "frameMatches (mTimestamp (buffer (q1 ! n))) (fl1 ! k0)"
    for n q1 fl1 k0
  proof -
    let ?q2 = "q1[n := (q1 ! n)\<lparr>frame := fl1 ! k0\<rparr>]"
    let ?fl2 = "fl1[k0 := []]"
    from inv have len: "length q1 = length q" "length fl1 = length fl"
      and same: "\<And>k. k < length q \<Longrightarrow> n \<le> k \<Longrightarrow> q1 ! k = q ! k"
      and mono: "\<And>j. j < length fl \<Longrightarrow> fl1 ! j = fl ! j \<or> fl1 ! j = []"
      and a: "\<And>k. k < length q \<Longrightarrow> A q1 fl1 k"
      and b: "\<And>k. k < length q \<Longrightarrow> k < n \<Longrightarrow> B q1 fl1 k"
      by (simp_all add: Inv_def)
    have nq: "n < length q" using n len by simp
    have qn: "q1 ! n = q ! n" using same [OF nq] by simp
    have ne: "fl1 ! k0 \<noteq> []" using m by (rule frameMatches_nonempty)
    have k0': "k0 < length fl" using k0 len by simp
    have flk: "fl1 ! k0 = fl ! k0" using mono [OF k0'] ne by auto
    have an: "A ?q2 ?fl2 n"
      unfolding A_def ts_def using n k0 k0' e t m qn flk by auto
    have ak: "A ?q2 ?fl2 k" if "k < length q" "k \<noteq> n" for k
    proof -
      have "A q1 fl1 k" using a that by simp
      moreover have "?fl2 ! j = []" if "fl1 ! j = []" "j < length fl" for j
        using that len by (cases "j = k0") auto
      ultimately show ?thesis
        unfolding A_def using that by auto
    qed
    have bk: "B ?q2 ?fl2 k" if "k < length q" "k < n + 1" for k
    proof (cases "k = n")
      case True
      then show ?thesis unfolding B_def using n ne by simp
    next
      case False
      then have "B q1 fl1 k" using b that by simp
      moreover have "\<not> frameMatches x (?fl2 ! j)" if "\<not> frameMatches x (fl1 ! j)" "j < length fl" for x j
        using that len frameMatches_empty by (cases "j = k0") auto
      ultimately show ?thesis
        unfolding B_def using False by auto
    qed
    have m2: "?fl2 ! j = fl ! j \<or> ?fl2 ! j = []" if "j < length fl" for j
      using mono [OF that] that len by (cases "j = k0") auto
    have s2: "?q2 ! k = q ! k" if "k < length q" "n + 1 \<le> k" for k
      using same [of k] that by simp
    show ?thesis
      unfolding Inv_def using len an ak bk m2 s2
      by (intro conjI allI impI) (simp_all, metis)
  qed
  have skip: "Inv (n + 1) q1 fl1"
    if n: "n < length q1" and inv: "Inv n q1 fl1"
      and sk: "frame (q1 ! n) \<noteq> [] \<or> mTimestamp (buffer (q1 ! n)) = 0 \<or>
         (\<forall>k<length fl1. \<not> frameMatches (mTimestamp (buffer (q1 ! n))) (fl1 ! k))"
    for n q1 fl1
  proof -
    from inv have len: "length q1 = length q" "length fl1 = length fl"
      and same: "\<And>k. k < length q \<Longrightarrow> n \<le> k \<Longrightarrow> q1 ! k = q ! k"
      and b: "\<And>k. k < length q \<Longrightarrow> k < n \<Longrightarrow> B q1 fl1 k"
      by (simp_all add: Inv_def)
    have nq: "n < length q" using n len by simp
    have qn: "q1 ! n = q ! n" using same [OF nq] by simp
    have bn: "B q1 fl1 n"
      unfolding B_def ts_def using sk qn len by auto
    have "B q1 fl1 k" if "k < length q" "k < n + 1" for k
      using b [of k] bn that by (cases "k = n") auto
    with inv show ?thesis
      unfolding Inv_def by auto
  qed
  have "\<exists>n. 0 \<le> n \<and> length (fst (scanZslQueue 0 q fl)) \<le> n \<and>
      Inv n (fst (scanZslQueue 0 q fl)) (snd (scanZslQueue 0 q fl))"
    by (rule scanZslQueue_invariant [where Inv = Inv]) (rule init match skip; assumption)+
  then obtain n where n: "length (fst (scanZslQueue 0 q fl)) \<le> n"
    and inv: "Inv n (fst (scanZslQueue 0 q fl)) (snd (scanZslQueue 0 q fl))"
    by blast
  from inv have len: "length (fst (scanZslQueue 0 q fl)) = length q"
    and a: "\<And>k. k < length q \<Longrightarrow> A (fst (scanZslQueue 0 q fl)) (snd (scanZslQueue 0 q fl)) k"
    and b: "\<And>k. k < length q \<Longrightarrow> k < n \<Longrightarrow>
          B (fst (scanZslQueue 0 q fl)) (snd (scanZslQueue 0 q fl)) k"
    by (simp_all add: Inv_def)
  have b': "B (fst (scanZslQueue 0 q fl)) (snd (scanZslQueue 0 q fl)) k" if "k < length q" for k
    using b [of k] that n len by simp
  show ?thesis
    using a b' unfolding A_def B_def ts_def by blast
qed

lemma frameMatches_has_timestamp:
  assumes "frameMatches t_b m"
  shows "\<exists>t_m rest. map_of m ANDROID_SENSOR_TIMESTAMP = Some (t_m # rest)"
proof (cases "map_of m ANDROID_SENSOR_TIMESTAMP")
  case None
  with assms show ?thesis
    by (simp add: frameMatches_def find_entry_def Let_def split: if_splits)
next
  case (Some d)
  with assms have "d \<noteq> []"
    by (auto simp: frameMatches_def find_entry_def Let_def split: if_splits)
  with Some show ?thesis by (cases d) auto
qed

section \<open>findMatchesLocked on the state\<close>

lemma findMatchesLocked_fields [simp]:
  "mState (findMatchesLocked s) = mState s"
  "mZslReprocessStreamId (findMatchesLocked s) = mZslReprocessStreamId s"
  "mFrameListHead (findMatchesLocked s) = mFrameListHead s"
  "mZslQueueHead (findMatchesLocked s) = mZslQueueHead s"
  "mZslQueueTail (findMatchesLocked s) = mZslQueueTail s"
  by (simp_all add: findMatchesLocked_def split: prod.splits)

lemma findMatchesLocked_queue:
  "mZslQueue (findMatchesLocked s) = fst (scanZslQueue 0 (mZslQueue s) (mFrameList s))"
  by (simp add: findMatchesLocked_def split: prod.splits)

lemma findMatchesLocked_frameList:
  "mFrameList (findMatchesLocked s) = snd (scanZslQueue 0 (mZslQueue s) (mFrameList s))"
  by (simp add: findMatchesLocked_def split: prod.splits)

lemma findMatchesLocked_lengths [simp]:
  "length (mZslQueue (findMatchesLocked s)) = length (mZslQueue s)"
  "length (mFrameList (findMatchesLocked s)) = length (mFrameList s)"
  by (simp_all add: findMatchesLocked_queue findMatchesLocked_frameList scanZslQueue_preserves)

lemma findMatchesLocked_buffers:
  "map buffer (mZslQueue (findMatchesLocked s)) = map buffer (mZslQueue s)"
  by (simp add: findMatchesLocked_queue scanZslQueue_preserves)

lemma findMatchesLocked_buffer_nth:
  "i < length (mZslQueue s) \<Longrightarrow>
     buffer (mZslQueue (findMatchesLocked s) ! i) = buffer (mZslQueue s ! i)"
  using findMatchesLocked_buffers [of s] by (metis length_map nth_map findMatchesLocked_lengths(1))

lemma findMatchesLocked_no_frames:
  "\<forall>k<length (mFrameList s). mFrameList s ! k = [] \<Longrightarrow> findMatchesLocked s = s"
  by (simp add: findMatchesLocked_def scanZslQueue_no_frames)

text \<open>A waiting buffer and a record that are alone: the pair is formed exactly within the tolerance.\<close>

lemma findMatchesLocked_isolated_pair:
  assumes "i < length (mZslQueue s)" and "frame (mZslQueue s ! i) = []"
    and "mTimestamp (buffer (mZslQueue s ! i)) = t_b" and "t_b \<noteq> 0"
    and "\<forall>k<length (mZslQueue s). k \<noteq> i \<longrightarrow>
           frame (mZslQueue s ! k) \<noteq> [] \<or> mTimestamp (buffer (mZslQueue s ! k)) = 0"
    and "j < length (mFrameList s)" and "mFrameList s ! j = m"
    and "map_of m ANDROID_SENSOR_TIMESTAMP = Some (t_m # rest)"
    and "\<forall>k<length (mFrameList s). k \<noteq> j \<longrightarrow> mFrameList s ! k = []"
    and "\<bar>sint t_b - sint t_m\<bar> < 2 ^ 63"
  shows "findMatchesLocked s =
           (if t_b = t_m \<or> \<bar>sint t_b - sint t_m\<bar> < 1000000
            then s\<lparr>mZslQueue := (mZslQueue s)[i := (mZslQueue s ! i)\<lparr>frame := m\<rparr>],
                   mFrameList := (mFrameList s)[j := []]\<rparr>
            else s)
       \<and> (frame (mZslQueue (findMatchesLocked s) ! i) = m
            \<longleftrightarrow> t_b = t_m \<or> \<bar>sint t_b - sint t_m\<bar> < 1000000)"
proof -
  have ne: "m \<noteq> []" using assms(8) by auto
  have iff: "frameMatches t_b m \<longleftrightarrow> (t_b = t_m \<or> \<bar>sint t_b - sint t_m\<bar> < 1000000)"
    using assms(8,10) by (rule frameMatches_iff)
  have sc: "scanZslQueue 0 (mZslQueue s) (mFrameList s) =
     (if frameMatches t_b m
      then ((mZslQueue s)[i := (mZslQueue s ! i)\<lparr>frame := m\<rparr>], (mFrameList s)[j := []])
      else (mZslQueue s, mFrameList s))"
    using assms(1-7,9) by (rule scanZslQueue_single)
  have eq: "findMatchesLocked s =
           (if t_b = t_m \<or> \<bar>sint t_b - sint t_m\<bar> < 1000000
            then s\<lparr>mZslQueue := (mZslQueue s)[i := (mZslQueue s ! i)\<lparr>frame := m\<rparr>],
                   mFrameList := (mFrameList s)[j := []]\<rparr>
            else s)"
    unfolding findMatchesLocked_def sc iff [symmetric] by simp
  show ?thesis
    unfolding eq using assms(1,2) ne by (intro conjI refl) auto
qed

section \<open>The request scan of pushToReprocess\<close>




section \<open>Buffers arriving from the source\<close>

lemma drainLoop_locked:
  "mState s = LOCKED \<Longrightarrow>
     drainLoop kZslBufferDepth (Some cl) s \<lparr>incoming = map Acquired items, released = rel\<rparr> =
       Some (True, s, \<lparr>incoming = [], released = rel @ items\<rparr>)"
proof (induction items arbitrary: rel)
  case Nil
  then show ?case
    by (subst drainLoop.simps)
       (simp add: processNewZslBuffer_def acquireBuffer_def NO_BUFFER_AVAILABLE_def OK_def)
next
  case (Cons item items)
  have "processNewZslBuffer kZslBufferDepth
          (s, \<lparr>incoming = map Acquired (item # items), released = rel\<rparr>) =
        Some (OK, s, \<lparr>incoming = map Acquired items, released = rel @ [item]\<rparr>)"
    using Cons.prems by (simp add: processNewZslBuffer_def acquireBuffer_def releaseBuffer_def)
  then have "drainLoop kZslBufferDepth (Some cl) s
               \<lparr>incoming = map Acquired (item # items), released = rel\<rparr> =
             drainLoop kZslBufferDepth (Some cl) s
               \<lparr>incoming = map Acquired items, released = rel @ [item]\<rparr>"
    by (subst drainLoop.simps) simp
  with Cons.IH [OF Cons.prems, of "rel @ [item]"] show ?case by simp
qed

lemma processNewZslBuffer_admits:
  assumes "mState s = RUNNING" "0 < kZslBufferDepth" "length (mZslQueue s) = kZslBufferDepth"
    "mZslQueueHead s < kZslBufferDepth" "mZslQueueTail s < kZslBufferDepth"
  shows "\<exists>s' consumer'.
      processNewZslBuffer kZslBufferDepth (s, \<lparr>incoming = Acquired item # rest, released = rel\<rparr>) =
        Some (OK, s', consumer') \<and>
      buffer (mZslQueue s' ! mZslQueueHead s) = item \<and>
      mZslQueueHead s' = (mZslQueueHead s + 1) mod kZslBufferDepth \<and>
      incoming consumer' = rest"
  using assms
  by (auto simp: processNewZslBuffer_def acquireBuffer_def releaseBuffer_def Let_def
        findMatchesLocked_buffer_nth)


section \<open>Filling the queue and evicting from it\<close>

lemma ZslPair_assign [simp]:
  "(e :: ZslPair)\<lparr>buffer := b, frame := f\<rparr> = \<lparr>buffer = b, frame = f\<rparr>"
  by simp

lemma fill_slot:
  assumes "length pre < Q"
  shows "(map g pre @ replicate (Q - length pre) d)[length pre := x] =
         map g pre @ x # replicate (Q - Suc (length pre)) d"
proof -
  have "Q - length pre = Suc (Q - Suc (length pre))"
    using assms by arith
  then have "replicate (Q - length pre) d = d # replicate (Q - Suc (length pre)) d"
    by (simp only: replicate_Suc)
  then show ?thesis
    by (simp add: list_update_append)
qed

lemma processNewZslBuffer_fill:
  assumes "length pre + 1 < Q"
  shows "processNewZslBuffer Q
           ((ZslProcessor_init Q F)
              \<lparr>mZslQueue := map (\<lambda>b. \<lparr>buffer = b, frame = []\<rparr>) pre
                    @ replicate (Q - length pre) ZslPair_default,
               mZslQueueHead := length pre\<rparr>,
            \<lparr>incoming = Acquired b # rest, released = []\<rparr>) =
         Some (OK,
           (ZslProcessor_init Q F)
              \<lparr>mZslQueue := map (\<lambda>b. \<lparr>buffer = b, frame = []\<rparr>) (pre @ [b])
                    @ replicate (Q - length (pre @ [b])) ZslPair_default,
               mZslQueueHead := length (pre @ [b])\<rparr>,
           \<lparr>incoming = rest, released = []\<rparr>)"
proof -
  let ?g = "\<lambda>b. \<lparr>buffer = b, frame = []\<rparr>"
  let ?s = "(ZslProcessor_init Q F)
              \<lparr>mZslQueue := map ?g pre @ replicate (Q - length pre) ZslPair_default,
               mZslQueueHead := length pre\<rparr>"
  let ?s2 = "(ZslProcessor_init Q F)
              \<lparr>mZslQueue := map ?g (pre @ [b]) @ replicate (Q - length (pre @ [b])) ZslPair_default,
               mZslQueueHead := length (pre @ [b])\<rparr>"
  have nofull: "(length pre + 1) mod Q \<noteq> 0"
    using assms by simp
  have hd: "(length pre + 1) mod Q = length pre + 1"
    using assms by simp
  have upd: "(map ?g pre @ replicate (Q - length pre) ZslPair_default)[length pre := ?g b] =
      map ?g (pre @ [b]) @ replicate (Q - length (pre @ [b])) ZslPair_default"
    using fill_slot [of pre Q ?g ZslPair_default "?g b"] assms by simp
  have fm: "findMatchesLocked ?s2 = ?s2"
    by (rule findMatchesLocked_no_frames) (simp add: ZslProcessor_init_def)
  have "processNewZslBuffer Q (?s, \<lparr>incoming = Acquired b # rest, released = []\<rparr>) =
      Some (OK, findMatchesLocked ?s2, \<lparr>incoming = rest, released = []\<rparr>)"
    using assms nofull hd upd
    by (simp add: processNewZslBuffer_def acquireBuffer_def Let_def ZslProcessor_init_def)
  then show ?thesis
    by (simp only: fm)
qed

lemma drainLoop_step:
  assumes "processNewZslBuffer Q (s, consumer) = Some (OK, s', consumer')"
  shows "drainLoop Q (Some cl) s consumer = drainLoop Q (Some cl) s' consumer'"
  using assms by (subst drainLoop.simps) simp

lemma drainLoop_exhausted:
  "drainLoop Q (Some cl) s \<lparr>incoming = [], released = rel\<rparr> =
     Some (True, s, \<lparr>incoming = [], released = rel\<rparr>)"
  by (subst drainLoop.simps)
     (simp add: processNewZslBuffer_def acquireBuffer_def NO_BUFFER_AVAILABLE_def OK_def)

lemma drainLoop_fill:
  assumes "length pre + length bs < Q"
  shows "drainLoop Q (Some cl)
           ((ZslProcessor_init Q F)
              \<lparr>mZslQueue := map (\<lambda>b. \<lparr>buffer = b, frame = []\<rparr>) pre
                    @ replicate (Q - length pre) ZslPair_default,
               mZslQueueHead := length pre\<rparr>)
           \<lparr>incoming = map Acquired bs @ rest, released = []\<rparr> =
         drainLoop Q (Some cl)
           ((ZslProcessor_init Q F)
              \<lparr>mZslQueue := map (\<lambda>b. \<lparr>buffer = b, frame = []\<rparr>) (pre @ bs)
                    @ replicate (Q - length (pre @ bs)) ZslPair_default,
               mZslQueueHead := length (pre @ bs)\<rparr>)
           \<lparr>incoming = rest, released = []\<rparr>"
  using assms
proof (induction bs arbitrary: pre)
  case Nil
  then show ?case by simp
next
  case (Cons b bs)
  have "length pre + 1 < Q" using Cons.prems by simp
  from processNewZslBuffer_fill [OF this, where F = F and b = b and rest = "map Acquired bs @ rest"]
  have "drainLoop Q (Some cl)
           ((ZslProcessor_init Q F)
              \<lparr>mZslQueue := map (\<lambda>b. \<lparr>buffer = b, frame = []\<rparr>) pre
                    @ replicate (Q - length pre) ZslPair_default,
               mZslQueueHead := length pre\<rparr>)
           \<lparr>incoming = map Acquired (b # bs) @ rest, released = []\<rparr> =
        drainLoop Q (Some cl)
           ((ZslProcessor_init Q F)
              \<lparr>mZslQueue := map (\<lambda>b. \<lparr>buffer = b, frame = []\<rparr>) (pre @ [b])
                    @ replicate (Q - length (pre @ [b])) ZslPair_default,
               mZslQueueHead := length (pre @ [b])\<rparr>)
           \<lparr>incoming = map Acquired bs @ rest, released = []\<rparr>"
    by (simp add: drainLoop_step)
  also have "\<dots> = drainLoop Q (Some cl)
           ((ZslProcessor_init Q F)
              \<lparr>mZslQueue := map (\<lambda>b. \<lparr>buffer = b, frame = []\<rparr>) ((pre @ [b]) @ bs)
                    @ replicate (Q - length ((pre @ [b]) @ bs)) ZslPair_default,
               mZslQueueHead := length ((pre @ [b]) @ bs)\<rparr>)
           \<lparr>incoming = rest, released = []\<rparr>"
    by (rule Cons.IH) (use Cons.prems in simp)
  finally show ?case by simp
qed

lemma processNewZslBuffer_evict_first:
  assumes "Q = length w + 2"
  shows "processNewZslBuffer Q
           ((ZslProcessor_init Q F)
              \<lparr>mZslQueue := map (\<lambda>b. \<lparr>buffer = b, frame = []\<rparr>) (oldest # w)
                    @ replicate (Q - length (oldest # w)) ZslPair_default,
               mZslQueueHead := length (oldest # w)\<rparr>,
            \<lparr>incoming = Acquired x # rest, released = []\<rparr>) =
         Some (OK,
           (ZslProcessor_init Q F)
              \<lparr>mZslQueue := ZslPair_default # map (\<lambda>b. \<lparr>buffer = b, frame = []\<rparr>) (w @ [x]),
               mZslQueueHead := 0, mZslQueueTail := 1\<rparr>,
           \<lparr>incoming = rest, released = [oldest]\<rparr>)"
proof -
  let ?g = "\<lambda>b. \<lparr>buffer = b, frame = []\<rparr>"
  let ?s2 = "(ZslProcessor_init Q F)
              \<lparr>mZslQueue := ZslPair_default # map ?g (w @ [x]),
               mZslQueueHead := 0, mZslQueueTail := 1\<rparr>"
  have q: "Q - length (oldest # w) = Suc 0" "length (oldest # w) = Suc (length w)"
    "(Suc (length w) + 1) mod Q = 0" "Suc 0 mod Q = 1" "Q \<noteq> 0"
    using assms by simp_all
  have upd: "(map ?g w @ [ZslPair_default])[length w := ?g x] = map ?g w @ [?g x]"
    by (simp add: list_update_append)
  have fm: "findMatchesLocked ?s2 = ?s2"
    by (rule findMatchesLocked_no_frames) (simp add: ZslProcessor_init_def)
  have "processNewZslBuffer Q
           ((ZslProcessor_init Q F)
              \<lparr>mZslQueue := map ?g (oldest # w) @ replicate (Q - length (oldest # w)) ZslPair_default,
               mZslQueueHead := length (oldest # w)\<rparr>,
            \<lparr>incoming = Acquired x # rest, released = []\<rparr>) =
      Some (OK, findMatchesLocked ?s2, \<lparr>incoming = rest, released = [oldest]\<rparr>)"
    unfolding q using q(3,4,5) upd assms
    by (simp add: processNewZslBuffer_def acquireBuffer_def releaseBuffer_def Let_def
          ZslProcessor_init_def)
  then show ?thesis
    by (simp only: fm)
qed

lemma processNewZslBuffer_evict_second:
  assumes "Q = length zs + 2"
  shows "processNewZslBuffer Q
           ((ZslProcessor_init Q F)
              \<lparr>mZslQueue := ZslPair_default # map (\<lambda>b. \<lparr>buffer = b, frame = []\<rparr>) (z # zs),
               mZslQueueHead := 0, mZslQueueTail := 1\<rparr>,
            \<lparr>incoming = Acquired y # rest, released = [oldest]\<rparr>) =
         Some (OK,
           (ZslProcessor_init Q F)
              \<lparr>mZslQueue := \<lparr>buffer = y, frame = []\<rparr> # ZslPair_default
                    # map (\<lambda>b. \<lparr>buffer = b, frame = []\<rparr>) zs,
               mZslQueueHead := 1, mZslQueueTail := 2 mod Q\<rparr>,
           \<lparr>incoming = rest, released = [oldest, z]\<rparr>)"
proof -
  let ?g = "\<lambda>b. \<lparr>buffer = b, frame = []\<rparr>"
  let ?s2 = "(ZslProcessor_init Q F)
              \<lparr>mZslQueue := ?g y # ZslPair_default # map ?g zs,
               mZslQueueHead := 1, mZslQueueTail := 2 mod Q\<rparr>"
  have q: "Suc 0 mod Q = 1" "Q \<noteq> 0" "Suc (Suc 0) mod Q = 2 mod Q"
    using assms by (simp_all add: numeral_2_eq_2)
  have fm: "findMatchesLocked ?s2 = ?s2"
    by (rule findMatchesLocked_no_frames) (simp add: ZslProcessor_init_def)
  have "processNewZslBuffer Q
           ((ZslProcessor_init Q F)
              \<lparr>mZslQueue := ZslPair_default # map ?g (z # zs),
               mZslQueueHead := 0, mZslQueueTail := 1\<rparr>,
            \<lparr>incoming = Acquired y # rest, released = [oldest]\<rparr>) =
      Some (OK, findMatchesLocked ?s2, \<lparr>incoming = rest, released = [oldest, z]\<rparr>)"
    using q
    by (simp add: processNewZslBuffer_def acquireBuffer_def releaseBuffer_def Let_def
          ZslProcessor_init_def)
  then show ?thesis
    by (simp only: fm)
qed

lemma drainLoop_overflow:
  assumes Q: "Q = length zs + 2"
  shows "drainLoop Q (Some cl) (ZslProcessor_init Q F)
           \<lparr>incoming = map Acquired (oldest # z # zs @ [y]), released = []\<rparr> =
         Some (True,
           (ZslProcessor_init Q F)
              \<lparr>mZslQueue := \<lparr>buffer = y, frame = []\<rparr> # ZslPair_default
                    # map (\<lambda>b. \<lparr>buffer = b, frame = []\<rparr>) zs,
               mZslQueueHead := 1, mZslQueueTail := 2 mod Q\<rparr>,
           \<lparr>incoming = [], released = [oldest, z]\<rparr>)"
proof -
  let ?g = "\<lambda>b. \<lparr>buffer = b, frame = []\<rparr>"
  define w where "w = butlast (z # zs)"
  define x where "x = last (z # zs)"
  have u: "w @ [x] = z # zs"
    unfolding w_def x_def by (rule append_butlast_last_id) simp
  have lw: "length w = length zs"
    unfolding w_def by simp
  have Qw: "Q = length w + 2"
    using Q lw by simp
  have "(oldest # w) @ [x, y] = oldest # (w @ [x]) @ [y]"
    by simp
  then have "oldest # z # zs @ [y] = (oldest # w) @ [x, y]"
    unfolding u by simp
  then have bs: "map Acquired (oldest # z # zs @ [y]) = map Acquired (oldest # w) @ [Acquired x, Acquired y]"
    by (simp only: map_append list.map)
  have init: "ZslProcessor_init Q F =
      (ZslProcessor_init Q F)
        \<lparr>mZslQueue := map ?g [] @ replicate (Q - length ([] :: BufferItem list)) ZslPair_default,
         mZslQueueHead := length ([] :: BufferItem list)\<rparr>"
    by (simp add: ZslProcessor_init_def)
  have "drainLoop Q (Some cl) (ZslProcessor_init Q F)
           \<lparr>incoming = map Acquired (oldest # z # zs @ [y]), released = []\<rparr> =
        drainLoop Q (Some cl)
           ((ZslProcessor_init Q F)
              \<lparr>mZslQueue := map ?g [] @ replicate (Q - length ([] :: BufferItem list)) ZslPair_default,
               mZslQueueHead := length ([] :: BufferItem list)\<rparr>)
           \<lparr>incoming = map Acquired (oldest # w) @ [Acquired x, Acquired y], released = []\<rparr>"
    unfolding bs using init by simp
  also have "\<dots> =
        drainLoop Q (Some cl)
           ((ZslProcessor_init Q F)
              \<lparr>mZslQueue := map ?g ([] @ oldest # w) @ replicate (Q - length ([] @ oldest # w)) ZslPair_default,
               mZslQueueHead := length ([] @ oldest # w)\<rparr>)
           \<lparr>incoming = [Acquired x, Acquired y], released = []\<rparr>"
    by (rule drainLoop_fill) (use Qw in simp)
  also have "\<dots> =
        drainLoop Q (Some cl)
           ((ZslProcessor_init Q F)
              \<lparr>mZslQueue := ZslPair_default # map ?g (w @ [x]),
               mZslQueueHead := 0, mZslQueueTail := 1\<rparr>)
           \<lparr>incoming = [Acquired y], released = [oldest]\<rparr>"
    using processNewZslBuffer_evict_first [OF Qw, where F = F and oldest = oldest and x = x and rest = "[Acquired y]"]
    by (intro drainLoop_step) simp
  also have "\<dots> =
        drainLoop Q (Some cl)
           ((ZslProcessor_init Q F)
              \<lparr>mZslQueue := ?g y # ZslPair_default # map ?g zs,
               mZslQueueHead := 1, mZslQueueTail := 2 mod Q\<rparr>)
           \<lparr>incoming = [], released = [oldest, z]\<rparr>"
    unfolding u
    using processNewZslBuffer_evict_second [OF Q, where F = F and z = z and y = y and rest = "[]" and oldest = oldest]
    by (intro drainLoop_step) simp
  also have "\<dots> = Some (True,
           (ZslProcessor_init Q F)
              \<lparr>mZslQueue := ?g y # ZslPair_default # map ?g zs,
               mZslQueueHead := 1, mZslQueueTail := 2 mod Q\<rparr>,
           \<lparr>incoming = [], released = [oldest, z]\<rparr>)"
    by (rule drainLoop_exhausted)
  finally show ?thesis .
qed

section \<open>Claims about the release notification and the vanished client\<close>

text \<open>
  Claim C6.  After every buffer-release notification the lifecycle state is
  RUNNING, whatever handle is reported: the comparison with the expected handle
  (that of the slot at the tail) decides only whether the mismatch is logged.
  The notification reads the slot at the tail, so the tail is within the queue.
\<close>

theorem onBufferReleased_resumes_running:
  assumes "mZslQueueTail s < length (mZslQueue s)"
  shows "onBufferReleased handle s =
           Some (s\<lparr>mState := RUNNING\<rparr>,
                 handle \<noteq> handle_of (buffer (mZslQueue s ! mZslQueueTail s)))"
  using assms by (simp add: onBufferReleased_def Let_def)

theorem onBufferReleased_resumes_running_witness:
  "mZslQueueTail (example_three\<lparr>mState := LOCKED\<rparr>)
     < length (mZslQueue (example_three\<lparr>mState := LOCKED\<rparr>))
   \<and> onBufferReleased (Some 99) (example_three\<lparr>mState := LOCKED\<rparr>) =
       Some (example_three, True)
   \<and> onBufferReleased (Some 1) (example_three\<lparr>mState := LOCKED\<rparr>) =
       Some (example_three, False)"
proof -
  have h: "mZslQueueTail (example_three\<lparr>mState := LOCKED\<rparr>)
     < length (mZslQueue (example_three\<lparr>mState := LOCKED\<rparr>))"
    by (simp add: example_three_def)
  show ?thesis
    using h onBufferReleased_resumes_running [OF h, of "Some 99"]
      onBufferReleased_resumes_running [OF h, of "Some 1"]
    by (simp add: example_three_def handle_of_def example_buffer_def)
qed

text \<open>
  Claim C10.  When the weak reference to the client does not promote,
  pushToReprocess returns \<^verbatim>\<open>false\<close>, which as a \<^verbatim>\<open>status_t\<close> is 0, the value of
  \<^verbatim>\<open>OK\<close>; the state is unchanged and no call is made on the device.
\<close>

theorem pushToReprocess_client_gone:
  "pushToReprocess kZslBufferDepth (env\<lparr>client := None\<rparr>) requestId s =
     Some (of_bool False, s, [])
   \<and> (of_bool False :: status_t) = OK"
  by (simp add: pushToReprocess_def OK_def)

section \<open>Claims about the metadata callback\<close>

lemma frameMatches_no_timestamp:
  "entry_count (find_entry m ANDROID_SENSOR_TIMESTAMP) = 0 \<Longrightarrow> \<not> frameMatches ts m"
  by (simp add: frameMatches_def Let_def)

text \<open>
  Claim C9.  A record that is not empty and has no timestamp entry: the callback
  reads element 0 of the entry that \<^verbatim>\<open>find\<close> returned with \<^verbatim>\<open>count == 0\<close>, a read
  out of range, before it looks at the state.  (That such a record never
  matches in findMatchesLocked is \<open>frameMatches_no_timestamp\<close>.)
\<close>

theorem onFrameAvailable_missing_timestamp:
  "onFrameAvailable 6 1 [(ANDROID_REQUEST_ID, [7])] (ZslProcessor_init 3 6) = None
   \<and> \<not> isEmpty [(ANDROID_REQUEST_ID, [7])]
   \<and> entry_count (find_entry [(ANDROID_REQUEST_ID, [7])] ANDROID_SENSOR_TIMESTAMP) = 0"
  by (simp add: onFrameAvailable_def find_entry_def data_i64_0_def isEmpty_def)

text \<open>
  Claim C4, as stated, fails in the state LOCKED: the callback returns before the
  insertion, so the record is dropped, the write index stays and no match is
  attempted.
\<close>

theorem onFrameAvailable_locked_counterexample:
  "onFrameAvailable 6 1 (example_meta 500000000) (example_waiting\<lparr>mState := LOCKED\<rparr>) =
     Some (example_waiting\<lparr>mState := LOCKED\<rparr>)
   \<and> mFrameListHead (example_waiting\<lparr>mState := LOCKED\<rparr>) = 0
   \<and> mFrameList (example_waiting\<lparr>mState := LOCKED\<rparr>) = [[], [], [], [], [], []]
   \<and> map frame (mZslQueue (example_waiting\<lparr>mState := LOCKED\<rparr>)) = [[], [], []]"
  by (simp add: onFrameAvailable_def find_entry_def data_i64_0_def example_meta_def
        example_waiting_def ZslPair_default_def)

text \<open>
  Claim C4, amended.  For a record that carries the timestamp entry, with the
  write index inside the frame list: in the state RUNNING the record is written
  at the write index over the occupant, the write index advances modulo the
  depth, and findMatchesLocked runs on the result; after it the record is still
  in its frame-list slot or has been moved into a queue slot that had no frame.
  In the state LOCKED the call changes nothing.
\<close>

theorem onFrameAvailable_records:
  assumes "data_i64_0 (find_entry m ANDROID_SENSOR_TIMESTAMP) = Some t"
    and "mFrameListHead s < length (mFrameList s)" and "0 < kFrameListDepth"
  shows "(mState s = RUNNING \<longrightarrow>
           (\<exists>s'. onFrameAvailable kFrameListDepth frameId m s = Some s' \<and>
              s' = findMatchesLocked
                     (s\<lparr>mFrameList := (mFrameList s)[mFrameListHead s := m],
                        mFrameListHead := (mFrameListHead s + 1) mod kFrameListDepth\<rparr>) \<and>
              mFrameListHead s' = (mFrameListHead s + 1) mod kFrameListDepth \<and>
              (mFrameList s' ! mFrameListHead s = m \<or>
               (\<exists>i<length (mZslQueue s).
                  frame (mZslQueue s' ! i) = m \<and> frame (mZslQueue s ! i) = []))))
       \<and> (mState s = LOCKED \<longrightarrow> onFrameAvailable kFrameListDepth frameId m s = Some s)"
proof (intro conjI impI)
  assume "mState s = LOCKED"
  with assms show "onFrameAvailable kFrameListDepth frameId m s = Some s"
    by (simp add: onFrameAvailable_def)
next
  assume run: "mState s = RUNNING"
  let ?s1 = "s\<lparr>mFrameList := (mFrameList s)[mFrameListHead s := m],
                mFrameListHead := (mFrameListHead s + 1) mod kFrameListDepth\<rparr>"
  have eq: "onFrameAvailable kFrameListDepth frameId m s = Some (findMatchesLocked ?s1)"
    using assms run by (simp add: onFrameAvailable_def)
  have "mFrameListHead s < length (mFrameList ?s1)"
    using assms(2) by simp
  from scanZslQueue_history_slot [OF this, of "mZslQueue ?s1"]
  have "mFrameList (findMatchesLocked ?s1) ! mFrameListHead s = m \<or>
      (\<exists>i<length (mZslQueue s).
         frame (mZslQueue (findMatchesLocked ?s1) ! i) = m \<and> frame (mZslQueue s ! i) = [])"
    using assms(2) by (auto simp: findMatchesLocked_queue findMatchesLocked_frameList)
  with eq show "\<exists>s'. onFrameAvailable kFrameListDepth frameId m s = Some s' \<and>
              s' = findMatchesLocked ?s1 \<and>
              mFrameListHead s' = (mFrameListHead s + 1) mod kFrameListDepth \<and>
              (mFrameList s' ! mFrameListHead s = m \<or>
               (\<exists>i<length (mZslQueue s).
                  frame (mZslQueue s' ! i) = m \<and> frame (mZslQueue s ! i) = []))"
    by simp
qed

theorem onFrameAvailable_records_witness:
  "data_i64_0 (find_entry (example_meta 500000000) ANDROID_SENSOR_TIMESTAMP) = Some 500000000
   \<and> mFrameListHead example_waiting < length (mFrameList example_waiting)
   \<and> mState example_waiting = RUNNING
   \<and> onFrameAvailable 6 1 (example_meta 500000000) example_waiting =
       Some (example_waiting\<lparr>mFrameListHead := 1,
         mZslQueue := [\<lparr>buffer = example_buffer 500000000 1, frame = example_meta 500000000\<rparr>,
                       ZslPair_default, ZslPair_default]\<rparr>)
   \<and> onFrameAvailable 6 1 (example_meta 500000000) (example_waiting\<lparr>mState := LOCKED\<rparr>) =
       Some (example_waiting\<lparr>mState := LOCKED\<rparr>)"
proof -
  have h1: "data_i64_0 (find_entry (example_meta 500000000) ANDROID_SENSOR_TIMESTAMP) =
      Some 500000000"
    by (simp add: example_meta_def find_entry_def data_i64_0_def)
  have h2: "mFrameListHead example_waiting < length (mFrameList example_waiting)"
    by (simp add: example_waiting_def)
  have h2': "mFrameListHead (example_waiting\<lparr>mState := LOCKED\<rparr>)
      < length (mFrameList (example_waiting\<lparr>mState := LOCKED\<rparr>))"
    by (simp add: example_waiting_def)
  have h3: "0 < (6::nat)" by simp
  have r: "mState example_waiting = RUNNING" by (simp add: example_waiting_def)
  have ev: "findMatchesLocked
      (example_waiting\<lparr>mFrameList := (mFrameList example_waiting)
           [mFrameListHead example_waiting := example_meta 500000000],
         mFrameListHead := (mFrameListHead example_waiting + 1) mod 6\<rparr>) =
      example_waiting\<lparr>mFrameListHead := 1,
         mZslQueue := [\<lparr>buffer = example_buffer 500000000 1, frame = example_meta 500000000\<rparr>,
                       ZslPair_default, ZslPair_default]\<rparr>"
    by code_simp
  show ?thesis
    using onFrameAvailable_records [OF h1 h2 h3, of 1]
      onFrameAvailable_records [OF h1 h2' h3, of 1] h1 h2 r ev
    by simp
qed

section \<open>Claims about buffers arriving while LOCKED\<close>

text \<open>
  Claim C7.  In the state LOCKED a buffer delivered by the source is acquired and
  handed straight back to it; the processor's state, so the queue and its
  cursors, is unchanged.  The drain loop does so for every buffer the source
  holds.  After a release notification the next buffer is written into the
  slot at the head and the head advances.
\<close>

theorem locked_drains_without_admitting:
  assumes "mState s = LOCKED"
  shows "processNewZslBuffer kZslBufferDepth
           (s, \<lparr>incoming = Acquired item # rest, released = rel\<rparr>) =
         Some (OK, s, \<lparr>incoming = rest, released = rel @ [item]\<rparr>)
    \<and> drainLoop kZslBufferDepth (Some cl) s \<lparr>incoming = map Acquired items, released = rel\<rparr> =
         Some (True, s, \<lparr>incoming = [], released = rel @ items\<rparr>)
    \<and> (0 < kZslBufferDepth \<and> length (mZslQueue s) = kZslBufferDepth \<and>
        mZslQueueHead s < kZslBufferDepth \<and> mZslQueueTail s < kZslBufferDepth \<longrightarrow>
        (\<exists>s1 logged s2 consumer2.
           onBufferReleased handle s = Some (s1, logged) \<and>
           processNewZslBuffer kZslBufferDepth
             (s1, \<lparr>incoming = Acquired item # rest, released = rel\<rparr>) =
             Some (OK, s2, consumer2) \<and>
           buffer (mZslQueue s2 ! mZslQueueHead s) = item \<and>
           mZslQueueHead s2 = (mZslQueueHead s + 1) mod kZslBufferDepth \<and>
           incoming consumer2 = rest))"
proof (intro conjI impI)
  show "processNewZslBuffer kZslBufferDepth
           (s, \<lparr>incoming = Acquired item # rest, released = rel\<rparr>) =
         Some (OK, s, \<lparr>incoming = rest, released = rel @ [item]\<rparr>)"
    using assms by (simp add: processNewZslBuffer_def acquireBuffer_def releaseBuffer_def)
  show "drainLoop kZslBufferDepth (Some cl) s \<lparr>incoming = map Acquired items, released = rel\<rparr> =
         Some (True, s, \<lparr>incoming = [], released = rel @ items\<rparr>)"
    using assms by (rule drainLoop_locked)
next
  assume wf: "0 < kZslBufferDepth \<and> length (mZslQueue s) = kZslBufferDepth \<and>
        mZslQueueHead s < kZslBufferDepth \<and> mZslQueueTail s < kZslBufferDepth"
  let ?s1 = "s\<lparr>mState := RUNNING\<rparr>"
  have rel: "onBufferReleased handle s =
      Some (?s1, handle \<noteq> handle_of (buffer (mZslQueue s ! mZslQueueTail s)))"
    using wf by (simp add: onBufferReleased_def Let_def)
  from processNewZslBuffer_admits [of ?s1 kZslBufferDepth item rest rel] wf
  obtain s2 consumer2 where
    "processNewZslBuffer kZslBufferDepth
       (?s1, \<lparr>incoming = Acquired item # rest, released = rel\<rparr>) = Some (OK, s2, consumer2)"
    "buffer (mZslQueue s2 ! mZslQueueHead s) = item"
    "mZslQueueHead s2 = (mZslQueueHead s + 1) mod kZslBufferDepth"
    "incoming consumer2 = rest"
    by auto
  with rel show "\<exists>s1 logged s2 consumer2.
           onBufferReleased handle s = Some (s1, logged) \<and>
           processNewZslBuffer kZslBufferDepth
             (s1, \<lparr>incoming = Acquired item # rest, released = rel\<rparr>) =
             Some (OK, s2, consumer2) \<and>
           buffer (mZslQueue s2 ! mZslQueueHead s) = item \<and>
           mZslQueueHead s2 = (mZslQueueHead s + 1) mod kZslBufferDepth \<and>
           incoming consumer2 = rest"
    by blast
qed

theorem locked_drains_without_admitting_witness:
  "mState (example_waiting\<lparr>mState := LOCKED\<rparr>) = LOCKED
   \<and> processNewZslBuffer 3
        (example_waiting\<lparr>mState := LOCKED\<rparr>,
         \<lparr>incoming = [Acquired (example_buffer 600000000 2)], released = []\<rparr>) =
       Some (OK, example_waiting\<lparr>mState := LOCKED\<rparr>,
             \<lparr>incoming = [], released = [example_buffer 600000000 2]\<rparr>)
   \<and> drainLoop 3 (Some example_client) (example_waiting\<lparr>mState := LOCKED\<rparr>)
        \<lparr>incoming = map Acquired [example_buffer 600000000 2, example_buffer 700000000 3],
          released = []\<rparr> =
       Some (True, example_waiting\<lparr>mState := LOCKED\<rparr>,
             \<lparr>incoming = [],
               released = [example_buffer 600000000 2, example_buffer 700000000 3]\<rparr>)
   \<and> (\<exists>s1 logged s2 consumer2.
         onBufferReleased (Some 1) (example_waiting\<lparr>mState := LOCKED\<rparr>) = Some (s1, logged) \<and>
         processNewZslBuffer 3
           (s1, \<lparr>incoming = [Acquired (example_buffer 600000000 2)], released = []\<rparr>) =
           Some (OK, s2, consumer2) \<and>
         buffer (mZslQueue s2 ! mZslQueueHead (example_waiting\<lparr>mState := LOCKED\<rparr>)) =
           example_buffer 600000000 2 \<and>
         mZslQueueHead s2 = (mZslQueueHead (example_waiting\<lparr>mState := LOCKED\<rparr>) + 1) mod 3 \<and>
         incoming consumer2 = [])"
proof -
  have h: "mState (example_waiting\<lparr>mState := LOCKED\<rparr>) = LOCKED"
    by simp
  have wf: "0 < (3::nat) \<and> length (mZslQueue (example_waiting\<lparr>mState := LOCKED\<rparr>)) = 3 \<and>
      mZslQueueHead (example_waiting\<lparr>mState := LOCKED\<rparr>) < 3 \<and>
      mZslQueueTail (example_waiting\<lparr>mState := LOCKED\<rparr>) < 3"
    by (simp add: example_waiting_def)
  show ?thesis
    using locked_drains_without_admitting
        [OF h, of 3 "example_buffer 600000000 2" "[]" "[]" example_client
           "[example_buffer 600000000 2, example_buffer 700000000 3]" "Some 1"] wf
    by simp
qed

section \<open>Claims about pushToReprocess\<close>

lemma example_three_reached:
  "(case onFrameAvailable 8 0 (example_meta 100000000)
           ((ZslProcessor_init 4 8)\<lparr>mZslReprocessStreamId := 1\<rparr>) of
      None \<Rightarrow> None
    | Some s1 \<Rightarrow>
       (case onFrameAvailable 8 0 (example_meta 300000000) s1 of
          None \<Rightarrow> None
        | Some s2 \<Rightarrow>
            drainLoop 4 (Some example_client) s2
              \<lparr>incoming = [Acquired (example_buffer 100000000 1),
                            Acquired (example_buffer 200000000 2),
                            Acquired (example_buffer 300000000 3)],
                released = []\<rparr>))
   = Some (True, example_three, \<lparr>incoming = [], released = []\<rparr>)"
  by code_simp

text \<open>
  Claim C2.  On the state with slots 0 and 2 complete and slot 1 holding a buffer
  only (reached from the constructor by \<open>example_three_reached\<close>), the request
  is the metadata of slot 0, but the loop has already advanced the index when it
  stops: the handle pushed for reprocessing is that of slot 1's buffer (graphic
  buffer 2), not of slot 0's (graphic buffer 1).
\<close>

theorem pushToReprocess_handle_of_next_slot:
  "pushToReprocess 4 example_env 7 example_three =
     Some (OK, example_three\<lparr>mState := LOCKED\<rparr>,
       [PushReprocessBuffer 1 (Some 2),
        Capture [(ANDROID_SENSOR_TIMESTAMP, [100000000]), (OTHER_TAG 0, [1]),
                 (ANDROID_REQUEST_TYPE, [1]), (ANDROID_REQUEST_INPUT_STREAMS, [1]),
                 (ANDROID_REQUEST_OUTPUT_STREAMS, [2]), (ANDROID_REQUEST_ID, [7])]])
   \<and> handle_of (buffer (mZslQueue example_three ! 0)) = Some 1
   \<and> frame (mZslQueue example_three ! 0) = example_meta 100000000
   \<and> handle_of (buffer (mZslQueue example_three ! 1)) = Some 2"
  by code_simp





section \<open>Claims about the correlator\<close>

text \<open>
  Claim C1, as stated, fails at two kinds of input.  A buffer whose timestamp is
  0 is never given metadata, even when the record's timestamp is equal (first
  conjunct: the record of timestamp 0 stays in the frame list, the slot stays
  without frame).  And when the 64-bit difference wraps around, a pair is
  formed although the timestamps are far apart (second conjunct: the largest
  timestamp and a record 5 ns above the smallest one).
\<close>

theorem tolerance_counterexample:
  "(case onFrameAvailable 6 1 (example_meta 0) (ZslProcessor_init 3 6) of
      None \<Rightarrow> None
    | Some s1 \<Rightarrow>
        processNewZslBuffer 3
          (s1, \<lparr>incoming = [Acquired (example_buffer 0 1)], released = []\<rparr>)) =
     Some (OK,
       (ZslProcessor_init 3 6)
         \<lparr>mFrameList := [example_meta 0, [], [], [], [], []], mFrameListHead := 1,
          mZslQueue := [\<lparr>buffer = example_buffer 0 1, frame = []\<rparr>, ZslPair_default,
                        ZslPair_default],
          mZslQueueHead := 1\<rparr>,
       \<lparr>incoming = [], released = []\<rparr>)
   \<and> (case onFrameAvailable 6 1 (example_meta (- 9223372036854775803)) (ZslProcessor_init 3 6) of
      None \<Rightarrow> None
    | Some s1 \<Rightarrow>
        processNewZslBuffer 3
          (s1, \<lparr>incoming = [Acquired (example_buffer 9223372036854775807 1)], released = []\<rparr>)) =
     Some (OK,
       (ZslProcessor_init 3 6)
         \<lparr>mFrameListHead := 1,
          mZslQueue := [\<lparr>buffer = example_buffer 9223372036854775807 1,
                          frame = example_meta (- 9223372036854775803)\<rparr>,
                        ZslPair_default, ZslPair_default],
          mZslQueueHead := 1\<rparr>,
       \<lparr>incoming = [], released = []\<rparr>)
   \<and> sint (9223372036854775807 :: nsecs_t) = 9223372036854775807
   \<and> sint (- 9223372036854775803 :: nsecs_t) = - 9223372036854775803
   \<and> \<not> \<bar>sint (9223372036854775807 :: nsecs_t) - sint (- 9223372036854775803 :: nsecs_t)\<bar>
         < 1000000"
  by code_simp

text \<open>
  Claim C1, amended.  In every state, for a buffer timestamp t_b and a record
  timestamp t_m whose difference fits 64 bits signed (as for any two timestamps
  that are not negative): a pass of findMatchesLocked gives a queue slot a frame
  only if the slot had none and its buffer timestamp is not 0, the frame is a
  record of the frame list, which is left empty there, and t_b = t_m or
  |t_b - t_m| < 1000000; and a slot whose buffer timestamp is not 0 and that is
  still without frame after the pass has no record left in the frame list with
  t_b = t_m or |t_b - t_m| < 1000000.
\<close>

theorem findMatchesLocked_pairs_within_tolerance:
  "(\<forall>i<length (mZslQueue s).
      frame (mZslQueue (findMatchesLocked s) ! i) \<noteq> frame (mZslQueue s ! i) \<longrightarrow>
        frame (mZslQueue s ! i) = [] \<and> mTimestamp (buffer (mZslQueue s ! i)) \<noteq> 0 \<and>
        (\<exists>j<length (mFrameList s). \<exists>t_m rest.
           frame (mZslQueue (findMatchesLocked s) ! i) = mFrameList s ! j \<and>
           mFrameList (findMatchesLocked s) ! j = [] \<and>
           map_of (mFrameList s ! j) ANDROID_SENSOR_TIMESTAMP = Some (t_m # rest) \<and>
           (\<bar>sint (mTimestamp (buffer (mZslQueue s ! i))) - sint t_m\<bar> < 2 ^ 63 \<longrightarrow>
              mTimestamp (buffer (mZslQueue s ! i)) = t_m \<or>
              \<bar>sint (mTimestamp (buffer (mZslQueue s ! i))) - sint t_m\<bar> < 1000000)))
   \<and> (\<forall>i<length (mZslQueue s). \<forall>j<length (mFrameList s). \<forall>t_m rest.
        frame (mZslQueue (findMatchesLocked s) ! i) = [] \<and>
        mTimestamp (buffer (mZslQueue s ! i)) \<noteq> 0 \<and>
        map_of (mFrameList (findMatchesLocked s) ! j) ANDROID_SENSOR_TIMESTAMP = Some (t_m # rest) \<and>
        \<bar>sint (mTimestamp (buffer (mZslQueue s ! i))) - sint t_m\<bar> < 2 ^ 63 \<longrightarrow>
          mTimestamp (buffer (mZslQueue s ! i)) \<noteq> t_m \<and>
          \<not> \<bar>sint (mTimestamp (buffer (mZslQueue s ! i))) - sint t_m\<bar> < 1000000)"
proof (intro conjI allI impI)
  fix i
  assume i: "i < length (mZslQueue s)"
    and ch: "frame (mZslQueue (findMatchesLocked s) ! i) \<noteq> frame (mZslQueue s ! i)"
  let ?tb = "mTimestamp (buffer (mZslQueue s ! i))"
  from scanZslQueue_pairs [of "mZslQueue s" "mFrameList s", THEN conjunct1, rule_format, of i] i ch
  have e: "frame (mZslQueue s ! i) = []" and t: "?tb \<noteq> 0"
    and ex: "\<exists>j<length (mFrameList s).
        frame (mZslQueue (findMatchesLocked s) ! i) = mFrameList s ! j \<and>
        mFrameList (findMatchesLocked s) ! j = [] \<and> frameMatches ?tb (mFrameList s ! j)"
    by (simp_all add: findMatchesLocked_queue findMatchesLocked_frameList)
  from ex obtain j where j: "j < length (mFrameList s)"
    "frame (mZslQueue (findMatchesLocked s) ! i) = mFrameList s ! j"
    "mFrameList (findMatchesLocked s) ! j = []" "frameMatches ?tb (mFrameList s ! j)"
    by blast
  from frameMatches_has_timestamp [OF j(4)] obtain t_m rest where
    tm: "map_of (mFrameList s ! j) ANDROID_SENSOR_TIMESTAMP = Some (t_m # rest)"
    by blast
  have "\<bar>sint ?tb - sint t_m\<bar> < 2 ^ 63 \<longrightarrow> ?tb = t_m \<or> \<bar>sint ?tb - sint t_m\<bar> < 1000000"
    using frameMatches_iff [OF tm] j(4) by blast
  with j tm have "\<exists>j<length (mFrameList s). \<exists>t_m rest.
           frame (mZslQueue (findMatchesLocked s) ! i) = mFrameList s ! j \<and>
           mFrameList (findMatchesLocked s) ! j = [] \<and>
           map_of (mFrameList s ! j) ANDROID_SENSOR_TIMESTAMP = Some (t_m # rest) \<and>
           (\<bar>sint ?tb - sint t_m\<bar> < 2 ^ 63 \<longrightarrow> ?tb = t_m \<or> \<bar>sint ?tb - sint t_m\<bar> < 1000000)"
    by blast
  with e t show "frame (mZslQueue s ! i) = []" "?tb \<noteq> 0"
    "\<exists>j<length (mFrameList s). \<exists>t_m rest.
           frame (mZslQueue (findMatchesLocked s) ! i) = mFrameList s ! j \<and>
           mFrameList (findMatchesLocked s) ! j = [] \<and>
           map_of (mFrameList s ! j) ANDROID_SENSOR_TIMESTAMP = Some (t_m # rest) \<and>
           (\<bar>sint ?tb - sint t_m\<bar> < 2 ^ 63 \<longrightarrow> ?tb = t_m \<or> \<bar>sint ?tb - sint t_m\<bar> < 1000000)"
    by simp_all
next
  fix i j t_m rest
  let ?tb = "mTimestamp (buffer (mZslQueue s ! i))"
  assume i: "i < length (mZslQueue s)" and j: "j < length (mFrameList s)"
    and a: "frame (mZslQueue (findMatchesLocked s) ! i) = [] \<and> ?tb \<noteq> 0 \<and>
        map_of (mFrameList (findMatchesLocked s) ! j) ANDROID_SENSOR_TIMESTAMP = Some (t_m # rest) \<and>
        \<bar>sint ?tb - sint t_m\<bar> < 2 ^ 63"
  from scanZslQueue_pairs [of "mZslQueue s" "mFrameList s", THEN conjunct2, rule_format, of i j] i j a
  have "\<not> frameMatches ?tb (mFrameList (findMatchesLocked s) ! j)"
    by (simp add: findMatchesLocked_queue findMatchesLocked_frameList)
  then have "\<not> (?tb = t_m \<or> \<bar>sint ?tb - sint t_m\<bar> < 1000000)"
    using frameMatches_iff [of "mFrameList (findMatchesLocked s) ! j" t_m rest ?tb] a by blast
  then show "?tb \<noteq> t_m" "\<not> \<bar>sint ?tb - sint t_m\<bar> < 1000000"
    by simp_all
qed

theorem findMatchesLocked_pairs_within_tolerance_witness:
  "findMatchesLocked (example_near 500999999 500000000) =
     (example_near 500999999 500000000)
       \<lparr>mZslQueue := [\<lparr>buffer = example_buffer 500999999 1, frame = example_meta 500000000\<rparr>,
                      ZslPair_default, ZslPair_default],
        mFrameList := [[], [], [], [], [], []]\<rparr>
   \<and> frame (mZslQueue (example_near 500999999 500000000) ! 0) = []
   \<and> mTimestamp (buffer (mZslQueue (example_near 500999999 500000000) ! 0)) \<noteq> 0
   \<and> \<bar>sint (500999999 :: nsecs_t) - sint (500000000 :: nsecs_t)\<bar> < 1000000
   \<and> findMatchesLocked (example_near 501000000 500000000) = example_near 501000000 500000000
   \<and> mFrameList (example_near 501000000 500000000) ! 1 = example_meta 500000000
   \<and> (mTimestamp (buffer (mZslQueue (example_near 501000000 500000000) ! 0)) \<noteq> 500000000 \<and>
      \<not> \<bar>sint (mTimestamp (buffer (mZslQueue (example_near 501000000 500000000) ! 0)))
           - sint (500000000 :: nsecs_t)\<bar> < 1000000)"
proof -
  let ?X = "example_near 500999999 500000000"
  let ?Y = "example_near 501000000 500000000"
  have evX: "findMatchesLocked ?X =
     ?X\<lparr>mZslQueue := [\<lparr>buffer = example_buffer 500999999 1, frame = example_meta 500000000\<rparr>,
                      ZslPair_default, ZslPair_default],
        mFrameList := [[], [], [], [], [], []]\<rparr>"
    by code_simp
  have evY: "findMatchesLocked ?Y = ?Y"
    by code_simp
  have c1: "frame (mZslQueue ?X ! 0) = [] \<and>
      mTimestamp (buffer (mZslQueue ?X ! 0)) \<noteq> 0 \<and>
      (\<exists>j<length (mFrameList ?X). \<exists>t_m rest.
         frame (mZslQueue (findMatchesLocked ?X) ! 0) = mFrameList ?X ! j \<and>
         mFrameList (findMatchesLocked ?X) ! j = [] \<and>
         map_of (mFrameList ?X ! j) ANDROID_SENSOR_TIMESTAMP = Some (t_m # rest) \<and>
         (\<bar>sint (mTimestamp (buffer (mZslQueue ?X ! 0))) - sint t_m\<bar> < 2 ^ 63 \<longrightarrow>
          mTimestamp (buffer (mZslQueue ?X ! 0)) = t_m \<or>
          \<bar>sint (mTimestamp (buffer (mZslQueue ?X ! 0))) - sint t_m\<bar> < 1000000))"
    by (rule findMatchesLocked_pairs_within_tolerance [of ?X, THEN conjunct1, rule_format, of 0])
       (simp_all add: evX, simp_all add: example_near_def example_meta_def)
  have c2: "mTimestamp (buffer (mZslQueue ?Y ! 0)) \<noteq> 500000000 \<and>
      \<not> \<bar>sint (mTimestamp (buffer (mZslQueue ?Y ! 0))) - sint (500000000 :: nsecs_t)\<bar> < 1000000"
    by (rule findMatchesLocked_pairs_within_tolerance
          [of ?Y, THEN conjunct2, rule_format, of 0 1 500000000 "[]", unfolded evY])
       (simp_all add: example_near_def example_meta_def example_buffer_def)
  from c1 have c1': "frame (mZslQueue ?X ! 0) = [] \<and> mTimestamp (buffer (mZslQueue ?X ! 0)) \<noteq> 0"
    by blast
  have y: "mFrameList ?Y ! 1 = example_meta 500000000"
    by (simp add: example_near_def)
  have d: "\<bar>sint (500999999 :: nsecs_t) - sint (500000000 :: nsecs_t)\<bar> < 1000000"
    by simp
  from evX c1' d evY y c2 show ?thesis
    by (intro conjI) (erule conjunct1 conjunct2 | assumption)+
qed

text \<open>
  Claim C8.  A pass of findMatchesLocked only moves records: the frames held by
  the queue slots together with those of the frame list are the same multiset
  before and after, so no record is ever in two slots.  Every frame-list slot is
  afterwards either untouched or empty, its record now in a queue slot that had
  none.  An empty slot matches no buffer timestamp, so it cannot complete a
  second pair.  And the scan for one buffer either finds no match and changes
  nothing, or stops at the first matching index k: the entry acquires that
  record and slot k is left empty.
\<close>

theorem record_matches_at_most_one_buffer:
  "mset (map frame (mZslQueue (findMatchesLocked s))) + mset (mFrameList (findMatchesLocked s)) =
     mset (map frame (mZslQueue s)) + mset (mFrameList s)
   \<and> (\<forall>j<length (mFrameList s).
         mFrameList (findMatchesLocked s) ! j = mFrameList s ! j \<or>
         (mFrameList (findMatchesLocked s) ! j = [] \<and>
          (\<exists>k<length (mZslQueue s).
             frame (mZslQueue (findMatchesLocked s) ! k) = mFrameList s ! j \<and>
             frame (mZslQueue s ! k) = [])))
   \<and> \<not> frameMatches bufferTimestamp []
   \<and> (scanFrameList 0 bufferTimestamp queueEntry frameList = (queueEntry, frameList) \<and>
        (\<forall>k<length frameList. \<not> frameMatches bufferTimestamp (frameList ! k))
      \<or> (\<exists>k<length frameList.
            frameMatches bufferTimestamp (frameList ! k) \<and>
            (\<forall>k'<k. \<not> frameMatches bufferTimestamp (frameList ! k')) \<and>
            scanFrameList 0 bufferTimestamp queueEntry frameList =
              (queueEntry\<lparr>frame := frameList ! k\<rparr>, frameList[k := []])))"
proof (intro conjI allI impI)
  show "mset (map frame (mZslQueue (findMatchesLocked s))) + mset (mFrameList (findMatchesLocked s)) =
     mset (map frame (mZslQueue s)) + mset (mFrameList s)"
    by (simp only: findMatchesLocked_queue findMatchesLocked_frameList scanZslQueue_conserves)
next
  fix j assume "j < length (mFrameList s)"
  from scanZslQueue_history_slot [OF this, of "mZslQueue s"]
  show "mFrameList (findMatchesLocked s) ! j = mFrameList s ! j \<or>
         (mFrameList (findMatchesLocked s) ! j = [] \<and>
          (\<exists>k<length (mZslQueue s).
             frame (mZslQueue (findMatchesLocked s) ! k) = mFrameList s ! j \<and>
             frame (mZslQueue s ! k) = []))"
    by (simp only: findMatchesLocked_queue findMatchesLocked_frameList)
next
  show "\<not> frameMatches bufferTimestamp []"
    by (rule frameMatches_empty)
next
  obtain e' fl' where sc: "scanFrameList 0 bufferTimestamp queueEntry frameList = (e', fl')"
    by (cases "scanFrameList 0 bufferTimestamp queueEntry frameList") auto
  from scanFrameList_cases [OF sc]
  show "scanFrameList 0 bufferTimestamp queueEntry frameList = (queueEntry, frameList) \<and>
        (\<forall>k<length frameList. \<not> frameMatches bufferTimestamp (frameList ! k))
      \<or> (\<exists>k<length frameList.
            frameMatches bufferTimestamp (frameList ! k) \<and>
            (\<forall>k'<k. \<not> frameMatches bufferTimestamp (frameList ! k')) \<and>
            scanFrameList 0 bufferTimestamp queueEntry frameList =
              (queueEntry\<lparr>frame := frameList ! k\<rparr>, frameList[k := []]))"
    unfolding sc by auto
qed

theorem record_matches_at_most_one_buffer_witness:
  "findMatchesLocked example_twins =
     example_twins
       \<lparr>mFrameList := [[], [], [], [], [], []],
        mZslQueue :=
          [\<lparr>buffer = example_buffer 500000000 1, frame = example_meta 500000000\<rparr>,
           \<lparr>buffer = example_buffer 500000000 2, frame = []\<rparr>,
           ZslPair_default]\<rparr>
   \<and> findMatchesLocked (findMatchesLocked example_twins) = findMatchesLocked example_twins
   \<and> mset (map frame (mZslQueue (findMatchesLocked example_twins))) +
       mset (mFrameList (findMatchesLocked example_twins)) =
       {#example_meta 500000000, [], [], [], [], [], [], [], []#}
   \<and> scanFrameList 0 500000000 \<lparr>buffer = example_buffer 500000000 2, frame = []\<rparr>
        (mFrameList (findMatchesLocked example_twins)) =
       (\<lparr>buffer = example_buffer 500000000 2, frame = []\<rparr>, [[], [], [], [], [], []])"
proof -
  have ev: "findMatchesLocked example_twins =
     example_twins
       \<lparr>mFrameList := [[], [], [], [], [], []],
        mZslQueue :=
          [\<lparr>buffer = example_buffer 500000000 1, frame = example_meta 500000000\<rparr>,
           \<lparr>buffer = example_buffer 500000000 2, frame = []\<rparr>,
           ZslPair_default]\<rparr>"
    by code_simp
  have ev2: "findMatchesLocked (findMatchesLocked example_twins) = findMatchesLocked example_twins"
    by code_simp
  have ev3: "scanFrameList 0 500000000 \<lparr>buffer = example_buffer 500000000 2, frame = []\<rparr>
        [[], [], [], [], [], []] =
       (\<lparr>buffer = example_buffer 500000000 2, frame = []\<rparr>, [[], [], [], [], [], []])"
    by code_simp
  have m: "mset (map frame (mZslQueue example_twins)) + mset (mFrameList example_twins) =
      {#example_meta 500000000, [], [], [], [], [], [], [], []#}"
    by (simp add: example_twins_def ZslPair_default_def)
  show ?thesis
    using record_matches_at_most_one_buffer [of example_twins] ev ev2 ev3 m
    by simp
qed

section \<open>Claims about eviction\<close>

text \<open>
  Claim C3, as stated, fails: the queue is full when \<^verbatim>\<open>(head + 1) % depth == tail\<close>,
  so it never holds more than depth - 1 buffers.  With depth 3, after four
  buffers only the last two are in the queue and the first two were released.
\<close>

theorem overflow_counterexample:
  "drainLoop 3 (Some example_client) (ZslProcessor_init 3 6)
     \<lparr>incoming = map Acquired
        [example_buffer 100000000 1, example_buffer 200000000 2,
         example_buffer 300000000 3, example_buffer 400000000 4],
      released = []\<rparr> =
   Some (True,
     (ZslProcessor_init 3 6)
       \<lparr>mZslQueue := [\<lparr>buffer = example_buffer 400000000 4, frame = []\<rparr>, ZslPair_default,
                      \<lparr>buffer = example_buffer 300000000 3, frame = []\<rparr>],
        mZslQueueHead := 1, mZslQueueTail := 2\<rparr>,
     \<lparr>incoming = [],
       released = [example_buffer 100000000 1, example_buffer 200000000 2]\<rparr>)
   \<and> filter (\<lambda>b. mTimestamp b \<noteq> 0)
       (map buffer [\<lparr>buffer = example_buffer 400000000 4, frame = []\<rparr>, ZslPair_default,
                    \<lparr>buffer = example_buffer 300000000 3, frame = []\<rparr>]) =
       [example_buffer 400000000 4, example_buffer 300000000 3]"
  by code_simp

text \<open>
  Claim C3, amended.  For a queue of depth Q (at least 2), starting from the
  constructor's state with no metadata recorded, Q + 1 buffers (the oldest, a
  second one z, Q - 2 more zs, and the newest y) with distinct timestamps other
  than 0 leave exactly the most recent Q - 1 buffers in the queue (y in slot 0,
  zs from slot 2 on, slot 1 cleared, head 1, tail 2 mod Q); the two oldest are
  released to the source, in order, each once.  Eviction is of the slot at the
  tail, triggered when \<^verbatim>\<open>(head + 1) % Q == tail\<close>.
\<close>

theorem overflow_keeps_newest_buffers:
  assumes "kZslBufferDepth = length zs + 2"
    and "\<forall>b\<in>set (oldest # z # zs @ [y]). mTimestamp b \<noteq> 0"
    and "distinct (map mTimestamp (oldest # z # zs @ [y]))"
  shows "\<exists>s' consumer'.
      drainLoop kZslBufferDepth (Some cl) (ZslProcessor_init kZslBufferDepth kFrameListDepth)
        \<lparr>incoming = map Acquired (oldest # z # zs @ [y]), released = []\<rparr> =
        Some (True, s', consumer') \<and>
      s' = (ZslProcessor_init kZslBufferDepth kFrameListDepth)
              \<lparr>mZslQueue := \<lparr>buffer = y, frame = []\<rparr> # ZslPair_default
                    # map (\<lambda>b. \<lparr>buffer = b, frame = []\<rparr>) zs,
               mZslQueueHead := 1, mZslQueueTail := 2 mod kZslBufferDepth\<rparr> \<and>
      filter (\<lambda>b. mTimestamp b \<noteq> 0) (map buffer (mZslQueue s')) = y # zs \<and>
      length (filter (\<lambda>b. mTimestamp b \<noteq> 0) (map buffer (mZslQueue s'))) = kZslBufferDepth - 1 \<and>
      incoming consumer' = [] \<and>
      released consumer' = [oldest, z] \<and>
      count_list (released consumer') oldest = 1"
proof -
  let ?s' = "(ZslProcessor_init kZslBufferDepth kFrameListDepth)
              \<lparr>mZslQueue := \<lparr>buffer = y, frame = []\<rparr> # ZslPair_default
                    # map (\<lambda>b. \<lparr>buffer = b, frame = []\<rparr>) zs,
               mZslQueueHead := 1, mZslQueueTail := 2 mod kZslBufferDepth\<rparr>"
  let ?c' = "\<lparr>incoming = [], released = [oldest, z]\<rparr>"
  have d: "drainLoop kZslBufferDepth (Some cl)
        (ZslProcessor_init kZslBufferDepth kFrameListDepth)
        \<lparr>incoming = map Acquired (oldest # z # zs @ [y]), released = []\<rparr> =
        Some (True, ?s', ?c')"
    by (rule drainLoop_overflow [OF assms(1)])
  have q: "map buffer (mZslQueue ?s') = y # BufferItem_default # zs"
    by (simp add: ZslPair_default_def comp_def)
  have f: "filter (\<lambda>b. mTimestamp b \<noteq> 0) zs = zs"
    using assms(2) by (auto simp: filter_id_conv)
  have y: "mTimestamp y \<noteq> 0"
    using assms(2) by simp
  have fl: "filter (\<lambda>b. mTimestamp b \<noteq> 0) (map buffer (mZslQueue ?s')) = y # zs"
    unfolding q using f y by (simp add: BufferItem_default_def)
  have len: "length (filter (\<lambda>b. mTimestamp b \<noteq> 0) (map buffer (mZslQueue ?s'))) =
      kZslBufferDepth - 1"
    unfolding fl using assms(1) by simp
  have "oldest \<noteq> z"
    using assms(3) by auto
  then have cnt: "count_list (released ?c') oldest = 1"
    by simp
  have inc: "incoming ?c' = []" and rel: "released ?c' = [oldest, z]"
    by simp_all
  from d fl len inc rel cnt show ?thesis
    by blast
qed

theorem overflow_keeps_newest_buffers_witness:
  "(4::nat) = length [example_buffer 300000000 3, example_buffer 400000000 4] + 2
   \<and> distinct (map mTimestamp
        (example_buffer 100000000 1 # example_buffer 200000000 2 #
         [example_buffer 300000000 3, example_buffer 400000000 4] @ [example_buffer 500000000 5]))
   \<and> drainLoop 4 (Some example_client) (ZslProcessor_init 4 8)
        \<lparr>incoming = map Acquired
           (example_buffer 100000000 1 # example_buffer 200000000 2 #
            [example_buffer 300000000 3, example_buffer 400000000 4] @
            [example_buffer 500000000 5]),
         released = []\<rparr> =
       Some (True,
         (ZslProcessor_init 4 8)
           \<lparr>mZslQueue := [\<lparr>buffer = example_buffer 500000000 5, frame = []\<rparr>, ZslPair_default,
                          \<lparr>buffer = example_buffer 300000000 3, frame = []\<rparr>,
                          \<lparr>buffer = example_buffer 400000000 4, frame = []\<rparr>],
            mZslQueueHead := 1, mZslQueueTail := 2\<rparr>,
         \<lparr>incoming = [],
           released = [example_buffer 100000000 1, example_buffer 200000000 2]\<rparr>)"
proof -
  have h1: "(4::nat) = length [example_buffer 300000000 3, example_buffer 400000000 4] + 2"
    by simp
  have h2: "\<forall>b\<in>set (example_buffer 100000000 1 # example_buffer 200000000 2 #
         [example_buffer 300000000 3, example_buffer 400000000 4] @ [example_buffer 500000000 5]).
       mTimestamp b \<noteq> 0"
    by (simp add: example_buffer_def)
  have h3: "distinct (map mTimestamp
        (example_buffer 100000000 1 # example_buffer 200000000 2 #
         [example_buffer 300000000 3, example_buffer 400000000 4] @ [example_buffer 500000000 5]))"
    by (simp add: example_buffer_def)
  from overflow_keeps_newest_buffers [OF h1 h2 h3, where cl = example_client and kFrameListDepth = 8]
  obtain s' consumer' where r:
    "drainLoop 4 (Some example_client) (ZslProcessor_init 4 8)
        \<lparr>incoming = map Acquired
           (example_buffer 100000000 1 # example_buffer 200000000 2 #
            [example_buffer 300000000 3, example_buffer 400000000 4] @
            [example_buffer 500000000 5]),
         released = []\<rparr> = Some (True, s', consumer')"
    "s' = (ZslProcessor_init 4 8)
           \<lparr>mZslQueue := \<lparr>buffer = example_buffer 500000000 5, frame = []\<rparr> # ZslPair_default
               # map (\<lambda>b. \<lparr>buffer = b, frame = []\<rparr>)
                   [example_buffer 300000000 3, example_buffer 400000000 4],
            mZslQueueHead := 1, mZslQueueTail := 2 mod 4\<rparr>"
    "incoming consumer' = []"
    "released consumer' = [example_buffer 100000000 1, example_buffer 200000000 2]"
    by blast
  have "consumer' = \<lparr>incoming = [],
           released = [example_buffer 100000000 1, example_buffer 200000000 2]\<rparr>"
    using r(3,4) by (cases consumer') simp
  with r(1,2) h1 h3 show ?thesis
    by simp
qed

end
